theory Spec2Isabelle
  imports Complex_Main "HOL-Library.AList" "HOL-Library.Multiset"
begin

section \<open>Generic directed graph\<close>

text \<open>
  An edge is a JavaScript object; two edges between the same endpoints are different
  objects. The field \<open>ident\<close> stands for the identity of the object.
\<close>

record 'v edge =
  ident :: nat
  edge_from :: 'v
  edge_to :: 'v

text \<open>A JavaScript \<open>Set\<close> keeps insertion order and ignores a second insertion.\<close>

definition set_add :: "'a \<Rightarrow> 'a list \<Rightarrow> 'a list" where
  "set_add x xs = (if x \<in> set xs then xs else xs @ [x])"

text \<open>
  Modelled from the spec: \<open>getOrInsert\<close> of \<open>./utils\<close> is not among the sources. It
  returns the value stored under the key, storing the fallback first when the key is absent.
  A \<open>Map\<close> keeps insertion order, so it is an association list with distinct keys.
\<close>

definition getOrInsert :: "('k \<times> 'a) list \<Rightarrow> 'k \<Rightarrow> 'a \<Rightarrow> 'a \<times> ('k \<times> 'a) list" where
  "getOrInsert m k fallback =
     (case map_of m k of
        Some v \<Rightarrow> (v, m)
      | None \<Rightarrow> (fallback, AList.update k fallback m))"

record 'v graph =
  vertices :: "'v list"
  edges :: "'v edge list"
  edgesEnteringVertex :: "('v \<times> 'v edge list) list"
  edgesLeavingVertex :: "('v \<times> 'v edge list) list"

definition emptyGraph :: "'v graph" where
  "emptyGraph = \<lparr>vertices = [], edges = [], edgesEnteringVertex = [], edgesLeavingVertex = []\<rparr>"

definition addVertex :: "'v \<Rightarrow> 'v graph \<Rightarrow> 'v graph" where
  "addVertex v g = g\<lparr>vertices := set_add v (vertices g)\<rparr>"

definition addEdge :: "'v edge \<Rightarrow> 'v graph \<Rightarrow> 'v graph" where
  "addEdge e g =
     (let g1 = addVertex (edge_from e) g;
          g2 = addVertex (edge_to e) g1;
          g3 = g2\<lparr>edges := set_add e (edges g2)\<rparr>;
          (inEdges, enteringMap) = getOrInsert (edgesEnteringVertex g3) (edge_to e) [];
          g4 = g3\<lparr>edgesEnteringVertex := AList.update (edge_to e) (set_add e inEdges) enteringMap\<rparr>;
          (outEdges, leavingMap) = getOrInsert (edgesLeavingVertex g4) (edge_from e) []
      in g4\<lparr>edgesLeavingVertex := AList.update (edge_from e) (set_add e outEdges) leavingMap\<rparr>)"

definition getEdges :: "'v graph \<Rightarrow> 'v edge list" where
  "getEdges g = edges g"

definition getVertices :: "'v graph \<Rightarrow> 'v list" where
  "getVertices g = vertices g"

definition getEdgesLeaving :: "'v graph \<Rightarrow> 'v \<Rightarrow> 'v edge list" where
  "getEdgesLeaving g v = (case map_of (edgesLeavingVertex g) v of Some es \<Rightarrow> es | None \<Rightarrow> [])"

definition getEdgesEntering :: "'v graph \<Rightarrow> 'v \<Rightarrow> 'v edge list" where
  "getEdgesEntering g v = (case map_of (edgesEnteringVertex g) v of Some es \<Rightarrow> es | None \<Rightarrow> [])"

section \<open>Rank assignment\<close>

type_synonym 'v rank_state = "'v set \<times> ('v \<times> int) list"

function getRank :: "'v graph \<Rightarrow> 'v \<Rightarrow> 'v rank_state \<Rightarrow> int \<times> 'v rank_state"
  and getRank_loop :: "'v graph \<Rightarrow> 'v edge list \<Rightarrow> int \<Rightarrow> 'v rank_state \<Rightarrow> int \<times> 'v rank_state"
where
  "getRank g v (visited, ranks) =
     (if v \<in> visited then
        (case map_of ranks v of
           Some r \<Rightarrow> (r, (visited, ranks))
         | None \<Rightarrow> (- 1, (visited, ranks)))
      else
        (case getRank_loop g (getEdgesEntering g v) (- 1) (insert v visited, ranks) of
           (maxParentRank, (visited', ranks')) \<Rightarrow>
             (let vRank = maxParentRank + 1
              in (vRank, (visited', AList.update v vRank ranks')))))"
| "getRank_loop g [] maxParentRank st = (maxParentRank, st)"
| "getRank_loop g (enteringEdge # rest) maxParentRank st =
     (case getRank g (edge_from enteringEdge) st of
        (r, st') \<Rightarrow> getRank_loop g rest (max r maxParentRank) st')"
  by pat_completeness auto

definition sources :: "'v graph \<Rightarrow> 'v set" where
  "sources g = (\<Union>(k, es) \<in> set (edgesEnteringVertex g). edge_from ` set es)"

lemma finite_sources: "finite (sources g)"
  by (auto simp: sources_def)

lemma getEdgesEntering_sources: "e \<in> set (getEdgesEntering g v) \<Longrightarrow> edge_from e \<in> sources g"
proof -
  assume e: "e \<in> set (getEdgesEntering g v)"
  then obtain es where "map_of (edgesEnteringVertex g) v = Some es" and "e \<in> set es"
    by (cases "map_of (edgesEnteringVertex g) v") (auto simp: getEdgesEntering_def)
  then have "(v, es) \<in> set (edgesEnteringVertex g)"
    by (simp add: map_of_SomeD)
  with \<open>e \<in> set es\<close> show ?thesis
    by (force simp: sources_def)
qed

lemma getRank_visited_mono_p:
  "getRank_getRank_loop_dom (Inl (g, v, st)) \<Longrightarrow> fst st \<subseteq> fst (snd (getRank g v st))"
  "getRank_getRank_loop_dom (Inr (g, es, m, st)) \<Longrightarrow> fst st \<subseteq> fst (snd (getRank_loop g es m st))"
proof (induction g v st and g es m st rule: getRank_getRank_loop.pinduct)
  case (1 g v visited ranks)
  then show ?case
    by (auto simp: getRank.psimps Let_def split: option.splits prod.splits)
next
  case (2 g maxParentRank st)
  then show ?case by (simp add: getRank_loop.psimps)
next
  case (3 g enteringEdge rest maxParentRank st)
  then show ?case
    by (fastforce simp: getRank_loop.psimps split: prod.splits)
qed

definition rank_measure1 :: "('v graph \<times> 'v \<times> 'v rank_state) + ('v graph \<times> 'v edge list \<times> int \<times> 'v rank_state) \<Rightarrow> nat" where
  "rank_measure1 x =
     (case x of
        Inl (g, v, st) \<Rightarrow> card (insert v (sources g) - fst st)
      | Inr (g, es, m, st) \<Rightarrow> card ((sources g \<union> edge_from ` set es) - fst st))"

definition rank_measure2 :: "('v graph \<times> 'v \<times> 'v rank_state) + ('v graph \<times> 'v edge list \<times> int \<times> 'v rank_state) \<Rightarrow> nat" where
  "rank_measure2 x = (case x of Inl _ \<Rightarrow> 0 | Inr (g, es, m, st) \<Rightarrow> Suc (length es))"

termination getRank
proof (relation "measures [rank_measure1, rank_measure2]", goal_cases)
  case 1
  show ?case by simp
next
  case (2 g v visited ranks)
  have "sources g \<union> edge_from ` set (getEdgesEntering g v) = sources g"
    using getEdgesEntering_sources[of _ g v] by auto
  moreover have "card (sources g - insert v visited) < card (insert v (sources g) - visited)"
    using 2 by (intro psubset_card_mono) (auto simp: finite_sources)
  ultimately show ?case
    by (simp add: rank_measure1_def)
next
  case (3 g enteringEdge rest maxParentRank st)
  have "card (insert (edge_from enteringEdge) (sources g) - fst st)
      \<le> card ((sources g \<union> edge_from ` set (enteringEdge # rest)) - fst st)"
    by (intro card_mono) (auto simp: finite_sources)
  then show ?case
    by (auto simp: rank_measure1_def rank_measure2_def)
next
  case (4 g enteringEdge rest maxParentRank st r st')
  then have "fst st \<subseteq> fst st'"
    using getRank_visited_mono_p(1)[of g "edge_from enteringEdge" st] by (metis snd_conv)
  then have "card ((sources g \<union> edge_from ` set rest) - fst st')
      \<le> card ((sources g \<union> edge_from ` set (enteringEdge # rest)) - fst st)"
    by (intro card_mono) (auto simp: finite_sources)
  then show ?case
    by (auto simp: rank_measure1_def rank_measure2_def)
qed

definition rankVertices :: "'v graph \<Rightarrow> ('v \<times> int) list" where
  "rankVertices g = snd (fold (\<lambda>v st. snd (getRank g v st)) (getVertices g) ({}, []))"


section \<open>Level construction\<close>

text \<open>
  LevelNodes are mutable objects that refer to each other. They live in a heap, a list of
  nodes; a reference is the position of the node in the heap and a new node is appended.
\<close>

type_synonym ref = nat

record 'v levelNode =
  parents :: "ref list"
  children :: "ref list"
  vertex :: "'v option"
  index :: nat

datatype 'v error =
    MissingLevelNodeOrSelfCycle
  | VertexWithNoRank
  | SidewaysEdge 'v 'v
  | MissingLevelNode
  | MissingPosition "ref option"

record 'v levelState =
  heap :: "'v levelNode list"
  rankToLevel :: "(int \<times> ref list) list"
  vertexToLevelNode :: "('v \<times> ref) list"
  minRank :: int
  maxRank :: int

definition alloc :: "'v levelNode \<Rightarrow> 'v levelNode list \<Rightarrow> ref \<times> 'v levelNode list" where
  "alloc n h = (length h, h @ [n])"

definition push_parent :: "ref \<Rightarrow> ref \<Rightarrow> 'v levelNode list \<Rightarrow> 'v levelNode list" where
  "push_parent n p h = h[n := (h ! n)\<lparr>parents := parents (h ! n) @ [p]\<rparr>]"

definition push_child :: "ref \<Rightarrow> ref \<Rightarrow> 'v levelNode list \<Rightarrow> 'v levelNode list" where
  "push_child n c h = h[n := (h ! n)\<lparr>children := children (h ! n) @ [c]\<rparr>]"

definition push_level :: "int \<Rightarrow> ref \<Rightarrow> (int \<times> ref list) list \<Rightarrow> (int \<times> ref list) list" where
  "push_level rank n m =
     (case getOrInsert m rank [] of (levelNodeList, m') \<Rightarrow> AList.update rank (levelNodeList @ [n]) m')"

definition emptyLevelState :: "'v levelState" where
  "emptyLevelState = \<lparr>heap = [], rankToLevel = [], vertexToLevelNode = [], minRank = 0, maxRank = 0\<rparr>"

definition addRankedVertex :: "'v \<times> int \<Rightarrow> 'v levelState \<Rightarrow> 'v levelState" where
  "addRankedVertex vr st =
     (case vr of (v, rank) \<Rightarrow>
        (case alloc \<lparr>parents = [], children = [], vertex = Some v, index = 0\<rparr> (heap st) of
           (levelNode, h) \<Rightarrow>
             st\<lparr>heap := h,
                rankToLevel := push_level rank levelNode (rankToLevel st),
                vertexToLevelNode := AList.update v levelNode (vertexToLevelNode st),
                minRank := min (minRank st) rank,
                maxRank := max (maxRank st) rank\<rparr>))"

function insertVirtual :: "int \<Rightarrow> int \<Rightarrow> ref \<Rightarrow> ref list \<Rightarrow> 'v levelState \<Rightarrow> ref \<times> ref list \<times> 'v levelState" where
  "insertVirtual rank toRank parent levelNodesForEdge st =
     (if rank < toRank then
        (case alloc \<lparr>parents = [parent], children = [], vertex = None, index = 0\<rparr> (heap st) of
           (levelNode, h) \<Rightarrow>
             insertVirtual (rank + 1) toRank levelNode (levelNodesForEdge @ [levelNode])
               (st\<lparr>heap := push_child parent levelNode h,
                   rankToLevel := push_level rank levelNode (rankToLevel st)\<rparr>))
      else (parent, levelNodesForEdge, st))"
  by pat_completeness auto
termination
  by (relation "measure (\<lambda>(rank, toRank, parent, nodes, st). nat (toRank - rank))") auto

declare insertVirtual.simps [simp del]

definition backEdge :: "('v \<times> int) list \<Rightarrow> 'v \<Rightarrow> 'v \<Rightarrow> bool" where
  "backEdge ranks from to =
     (from \<noteq> to \<and>
      (case map_of ranks from of
         None \<Rightarrow> False
       | Some fromRank \<Rightarrow>
           (case map_of ranks to of None \<Rightarrow> False | Some toRank \<Rightarrow> toRank < fromRank)))"

function handleEdge :: "('v \<times> int) list \<Rightarrow> 'v \<Rightarrow> 'v \<Rightarrow> 'v levelState \<Rightarrow> 'v error + (ref list \<times> 'v levelState)" where
  "handleEdge ranks from to st =
     (if from = to then
        (case map_of (vertexToLevelNode st) from of
           None \<Rightarrow> Inl MissingLevelNodeOrSelfCycle
         | Some node \<Rightarrow> Inr ([node], st))
      else
        (case map_of ranks from of
           None \<Rightarrow> Inl VertexWithNoRank
         | Some fromRank \<Rightarrow>
        (case map_of ranks to of
           None \<Rightarrow> Inl VertexWithNoRank
         | Some toRank \<Rightarrow>
             if toRank = fromRank then Inl (SidewaysEdge from to)
             else if toRank < fromRank then
               (case handleEdge ranks to from st of
                  Inl err \<Rightarrow> Inl err
                | Inr (nodes, st') \<Rightarrow> Inr (rev nodes, st'))
             else
               (case map_of (vertexToLevelNode st) from of
                  None \<Rightarrow> Inl MissingLevelNode
                | Some fromLevelNode \<Rightarrow>
               (case map_of (vertexToLevelNode st) to of
                  None \<Rightarrow> Inl MissingLevelNode
                | Some toLevelNode \<Rightarrow>
                    (case insertVirtual (fromRank + 1) toRank fromLevelNode [fromLevelNode] st of
                       (parent, levelNodesForEdge, st') \<Rightarrow>
                         Inr (levelNodesForEdge @ [toLevelNode],
                              st'\<lparr>heap := push_child parent toLevelNode
                                            (push_parent toLevelNode parent (heap st'))\<rparr>)))))))"
  by pat_completeness auto
termination
  by (relation "measure (\<lambda>(ranks, from, to, st). if backEdge ranks from to then 1 else 0)")
     (auto simp: backEdge_def)

declare handleEdge.simps [simp del]


definition recordChain :: "'v edge \<Rightarrow> ref list \<times> 'v levelState \<Rightarrow> ('v edge \<times> ref list) list
    \<Rightarrow> ('v edge \<times> ref list) list \<times> 'v levelState" where
  "recordChain e res edgeToLevelNodes = (AList.update e (fst res) edgeToLevelNodes, snd res)"

fun handleEdges :: "('v \<times> int) list \<Rightarrow> 'v edge list \<Rightarrow> ('v edge \<times> ref list) list \<times> 'v levelState
    \<Rightarrow> 'v error + (('v edge \<times> ref list) list \<times> 'v levelState)" where
  "handleEdges ranks [] (edgeToLevelNodes, st) = Inr (edgeToLevelNodes, st)"
| "handleEdges ranks (e # es) (edgeToLevelNodes, st) =
     (case handleEdge ranks (edge_from e) (edge_to e) st of
        Inl err \<Rightarrow> Inl err
      | Inr res \<Rightarrow> handleEdges ranks es (recordChain e res edgeToLevelNodes))"

function reindexLevel_from :: "nat \<Rightarrow> ref list \<Rightarrow> 'v levelNode list \<Rightarrow> 'v levelNode list" where
  "reindexLevel_from i level h =
     (if i < length level then
        reindexLevel_from (i + 1) level (h[level ! i := (h ! (level ! i))\<lparr>index := i\<rparr>])
      else h)"
  by pat_completeness auto
termination
  by (relation "measure (\<lambda>(i, level, h). length level - i)") auto

declare reindexLevel_from.simps [simp del]

definition reindexLevel :: "ref list \<Rightarrow> 'v levelNode list \<Rightarrow> 'v levelNode list" where
  "reindexLevel level h = reindexLevel_from 0 level h"

text \<open>
  Modelled from the spec: \<open>getOrElse\<close> of \<open>./utils\<close> is not among the sources. It
  returns the value stored under the key, or the fallback when the key is absent, and stores
  nothing.
\<close>

definition getOrElse :: "('k \<times> 'a) list \<Rightarrow> 'k \<Rightarrow> 'a \<Rightarrow> 'a" where
  "getOrElse m k fallback = (case map_of m k of Some v \<Rightarrow> v | None \<Rightarrow> fallback)"

definition appendLevel :: "ref list \<Rightarrow> ref list list \<times> 'v levelNode list \<Rightarrow> ref list list \<times> 'v levelNode list" where
  "appendLevel level acc = (fst acc @ [level], reindexLevel level (snd acc))"

function buildLevels :: "int \<Rightarrow> int \<Rightarrow> (int \<times> ref list) list \<Rightarrow> ref list list \<times> 'v levelNode list
    \<Rightarrow> ref list list \<times> 'v levelNode list" where
  "buildLevels rank maxR r2l (levels, h) =
     (if rank \<le> maxR then
        buildLevels (rank + 1) maxR r2l (appendLevel (getOrElse r2l rank []) (levels, h))
      else (levels, h))"
  by pat_completeness auto
termination
  by (relation "measure (\<lambda>(rank, maxR, r2l, acc). nat (maxR + 1 - rank))") auto

declare buildLevels.simps [simp del]

section \<open>Crossing minimization\<close>

text \<open>
  A weight is the sum of the column indices divided by their number. The indices are small
  natural numbers, so the quotient is taken as an exact rational; with no parents (or no
  children) the source divides zero by zero and the weight is not a number, here \<open>None\<close>.
\<close>

definition levelNodeParentWeight :: "'v levelNode list \<Rightarrow> ref \<Rightarrow> rat option" where
  "levelNodeParentWeight h n =
     (let ps = parents (h ! n)
      in if ps = [] then None
         else Some (of_nat (fold (\<lambda>p accum. accum + index (h ! p)) ps 0) / of_nat (length ps)))"

definition levelNodeChildWeight :: "'v levelNode list \<Rightarrow> ref \<Rightarrow> rat option" where
  "levelNodeChildWeight h n =
     (let cs = children (h ! n)
      in if cs = [] then None
         else Some (of_nat (fold (\<lambda>p accum. accum + index (h ! p)) cs 0) / of_nat (length cs)))"

text \<open>
  Modelled from the spec: \<open>sortBy\<close> of \<open>./utils\<close> is not among the sources. The spec
  has each row sorted stably by the weight, a node whose weight is undefined being ignored:
  the nodes that have a weight are sorted stably among the places they occupy, and a node
  without a weight stays where it is.
\<close>

fun refill :: "('a \<Rightarrow> rat option) \<Rightarrow> 'a list \<Rightarrow> 'a list \<Rightarrow> 'a list" where
  "refill key [] ss = []"
| "refill key (t # ts) ss =
     (if key t = None then t # refill key ts ss
      else (case ss of [] \<Rightarrow> t # refill key ts [] | s # ss' \<Rightarrow> s # refill key ts ss'))"

definition sortBy :: "('a \<Rightarrow> rat option) \<Rightarrow> 'a list \<Rightarrow> 'a list" where
  "sortBy key ts = refill key ts (sort_key (\<lambda>t. the (key t)) (filter (\<lambda>t. key t \<noteq> None) ts))"

text \<open>
  The sort that the passes use is the absent \<open>sortBy\<close>. The passes take it as the
  parameter \<open>sorter\<close>, so that what is proved of them holds for every sort that permutes
  its argument; \<open>sortBy\<close> above is one.
\<close>

definition permuting :: "(('a \<Rightarrow> rat option) \<Rightarrow> 'a list \<Rightarrow> 'a list) \<Rightarrow> bool" where
  "permuting sorter \<longleftrightarrow> (\<forall>key ts. mset (sorter key ts) = mset ts)"

definition sortLevel :: "((ref \<Rightarrow> rat option) \<Rightarrow> ref list \<Rightarrow> ref list)
    \<Rightarrow> ('v levelNode list \<Rightarrow> ref \<Rightarrow> rat option) \<Rightarrow> nat
    \<Rightarrow> ref list list \<times> 'v levelNode list \<Rightarrow> ref list list \<times> 'v levelNode list" where
  "sortLevel sorter weight i acc =
     (let row = sorter (weight (snd acc)) (fst acc ! i)
      in ((fst acc)[i := row], reindexLevel row (snd acc)))"

function sweepDown :: "((ref \<Rightarrow> rat option) \<Rightarrow> ref list \<Rightarrow> ref list) \<Rightarrow> nat
    \<Rightarrow> ref list list \<times> 'v levelNode list \<Rightarrow> ref list list \<times> 'v levelNode list" where
  "sweepDown sorter i (levels, h) =
     (if i < length levels then
        sweepDown sorter (i + 1) (sortLevel sorter levelNodeParentWeight i (levels, h))
      else (levels, h))"
  by pat_completeness auto
termination
  by (relation "measure (\<lambda>(sorter, i, acc). length (fst acc) - i)") (auto simp: sortLevel_def Let_def)

declare sweepDown.simps [simp del]

text \<open>
  The upward sweep counts \<open>i\<close> from \<open>length levels - 1\<close> down to \<open>0\<close>; its argument is
  \<open>i + 1\<close>, the number of rows still to sort.
\<close>

fun sweepUp :: "((ref \<Rightarrow> rat option) \<Rightarrow> ref list \<Rightarrow> ref list) \<Rightarrow> nat
    \<Rightarrow> ref list list \<times> 'v levelNode list \<Rightarrow> ref list list \<times> 'v levelNode list" where
  "sweepUp sorter 0 (levels, h) = (levels, h)"
| "sweepUp sorter (Suc i) (levels, h) = sweepUp sorter i (sortLevel sorter levelNodeChildWeight i (levels, h))"

definition sweepUpAll :: "((ref \<Rightarrow> rat option) \<Rightarrow> ref list \<Rightarrow> ref list)
    \<Rightarrow> ref list list \<times> 'v levelNode list \<Rightarrow> ref list list \<times> 'v levelNode list" where
  "sweepUpAll sorter acc = sweepUp sorter (length (fst acc)) acc"

function crossingPasses :: "((ref \<Rightarrow> rat option) \<Rightarrow> ref list \<Rightarrow> ref list) \<Rightarrow> nat
    \<Rightarrow> ref list list \<times> 'v levelNode list \<Rightarrow> ref list list \<times> 'v levelNode list" where
  "crossingPasses sorter pass (levels, h) =
     (if pass < 4 then
        crossingPasses sorter (pass + 1) (sweepUpAll sorter (sweepDown sorter 0 (levels, h)))
      else (levels, h))"
  by pat_completeness auto
termination
  by (relation "measure (\<lambda>(sorter, pass, acc). 4 - pass)") auto

declare crossingPasses.simps [simp del]

record 'v levelResult =
  levels :: "ref list list"
  edgeToLevelNodes :: "('v edge \<times> ref list) list"
  levelHeap :: "'v levelNode list"

definition makeLevels :: "((ref \<Rightarrow> rat option) \<Rightarrow> ref list \<Rightarrow> ref list)
    \<Rightarrow> ('v edge \<times> ref list) list \<times> 'v levelState \<Rightarrow> 'v levelResult" where
  "makeLevels sorter acc =
     (let sorted = crossingPasses sorter 0
            (buildLevels (minRank (snd acc)) (maxRank (snd acc)) (rankToLevel (snd acc))
               ([], heap (snd acc)))
      in \<lparr>levels = fst sorted, edgeToLevelNodes = fst acc, levelHeap = snd sorted\<rparr>)"

definition ranksToLevels :: "((ref \<Rightarrow> rat option) \<Rightarrow> ref list \<Rightarrow> ref list)
    \<Rightarrow> ('v \<times> int) list \<Rightarrow> 'v edge list \<Rightarrow> 'v error + 'v levelResult" where
  "ranksToLevels sorter ranks es =
     (case handleEdges ranks es ([], fold addRankedVertex ranks emptyLevelState) of
        Inl err \<Rightarrow> Inl err
      | Inr acc \<Rightarrow> Inr (makeLevels sorter acc))"


section \<open>Coordinate assignment\<close>

text \<open>
  Modelled from the spec: \<open>Vec2\<close> and \<open>Rect\<close> of \<open>./math\<close> are not among the sources.
  A rectangle is an axis-aligned box given by its origin and its extent; \<open>rect_left\<close> and \<open>rect_top\<close>
  are the coordinates of the origin, \<open>rect_width\<close> and \<open>rect_height\<close> those of the extent.
  The coordinates are sums and halves of small whole numbers and are taken as exact rationals.
\<close>

record vec2 =
  vec_x :: rat
  vec_y :: rat

record rect =
  rect_origin :: vec2
  rect_size :: vec2

definition Vec2 :: "rat \<Rightarrow> rat \<Rightarrow> vec2" where
  "Vec2 a b = \<lparr>vec_x = a, vec_y = b\<rparr>"

definition Rect :: "vec2 \<Rightarrow> vec2 \<Rightarrow> rect" where
  "Rect origin extent = \<lparr>rect_origin = origin, rect_size = extent\<rparr>"

definition vec_plus :: "vec2 \<Rightarrow> vec2 \<Rightarrow> vec2" where
  "vec_plus a b = Vec2 (vec_x a + vec_x b) (vec_y a + vec_y b)"

definition vec_times :: "vec2 \<Rightarrow> rat \<Rightarrow> vec2" where
  "vec_times a scalar = Vec2 (vec_x a * scalar) (vec_y a * scalar)"

definition rect_left :: "rect \<Rightarrow> rat" where
  "rect_left r = vec_x (rect_origin r)"

definition rect_top :: "rect \<Rightarrow> rat" where
  "rect_top r = vec_y (rect_origin r)"

definition rect_width :: "rect \<Rightarrow> rat" where
  "rect_width r = vec_x (rect_size r)"

definition rect_height :: "rect \<Rightarrow> rat" where
  "rect_height r = vec_y (rect_size r)"

definition width :: rat where
  "width = 230 / 2"

definition height :: rat where
  "height = 50 / 2"

definition verticalSpacing :: rat where
  "verticalSpacing = 90 / 2"

definition horizontalSpacing :: rat where
  "horizontalSpacing = 50 / 2"

definition maxCount :: "ref list list \<Rightarrow> nat" where
  "maxCount lvls = fold (\<lambda>cur mx. max mx (length cur)) lvls 0"

definition totalWidth :: "ref list list \<Rightarrow> rat" where
  "totalWidth lvls = of_nat (maxCount lvls) * width + (of_nat (maxCount lvls) - 1) * horizontalSpacing"

text \<open>
  The source tests \<open>node.vertex\<close> for truth; a vertex is an object, so the test fails
  exactly for the \<open>null\<close> of a virtual node.
\<close>

definition levelWidth_step :: "'v levelNode list \<Rightarrow> ref \<Rightarrow> rat \<Rightarrow> rat" where
  "levelWidth_step h node levelWidth =
     (let levelWidth1 = (if levelWidth > 0 then levelWidth + horizontalSpacing else levelWidth)
      in if vertex (h ! node) \<noteq> None then levelWidth1 + width
         else levelWidth1 + horizontalSpacing)"

definition levelWidth :: "'v levelNode list \<Rightarrow> ref list \<Rightarrow> rat" where
  "levelWidth h level = fold (levelWidth_step h) level 0"

definition positionNode :: "'v levelNode list \<Rightarrow> rat \<Rightarrow> ref \<Rightarrow> rat \<times> (ref \<times> rect) list \<Rightarrow> rat \<times> (ref \<times> rect) list" where
  "positionNode h y node acc =
     (case acc of (x, positions) \<Rightarrow>
        if vertex (h ! node) = None then
          (x + horizontalSpacing + horizontalSpacing,
           AList.update node (Rect (Vec2 (x + horizontalSpacing / 2) (y + height / 2)) (Vec2 0 0)) positions)
        else
          (x + width + horizontalSpacing,
           AList.update node (Rect (Vec2 x y) (Vec2 width height)) positions))"

definition levelStart :: "'v levelNode list \<Rightarrow> ref list list \<Rightarrow> ref list \<Rightarrow> rat" where
  "levelStart h lvls level = totalWidth lvls / 2 - levelWidth h level / 2"

definition positionLevel :: "'v levelNode list \<Rightarrow> ref list list \<Rightarrow> ref list \<Rightarrow> rat \<times> (ref \<times> rect) list \<Rightarrow> rat \<times> (ref \<times> rect) list" where
  "positionLevel h lvls level acc =
     (case acc of (y, positions) \<Rightarrow>
        (y + (height + verticalSpacing),
         snd (fold (positionNode h y) level (levelStart h lvls level, positions))))"

definition positionNodes :: "'v levelNode list \<Rightarrow> ref list list \<Rightarrow> (ref \<times> rect) list" where
  "positionNodes h lvls = snd (fold (positionLevel h lvls) lvls (0, []))"

section \<open>Edge routing\<close>

text \<open>
  A path is the sequence of drawing commands that the source prints into a string:
  \<open>M x y\<close> moves to the first anchor, \<open>S mx my x y\<close> draws a smooth curve through the
  midpoint to the next anchor.
\<close>

datatype pathCommand = MoveTo rat rat | SmoothTo rat rat rat rat

definition anchorTop :: "rect \<Rightarrow> vec2" where
  "anchorTop r = Vec2 (rect_left r + rect_width r / 2) (rect_top r)"

fun pathSegments :: "(ref \<times> rect) list \<Rightarrow> ref \<Rightarrow> ref list \<Rightarrow> 'v error + pathCommand list" where
  "pathSegments positions from [] = Inr []"
| "pathSegments positions from (to # rest) =
     (case map_of positions from of
        None \<Rightarrow> Inl (MissingPosition (Some from))
      | Some fromRect \<Rightarrow>
     (case map_of positions to of
        None \<Rightarrow> Inl (MissingPosition (Some to))
      | Some toRect \<Rightarrow>
          (let fromAnchor = (if rect_top fromRect < rect_top toRect
                             then vec_plus (anchorTop fromRect) (Vec2 0 (rect_height fromRect))
                             else anchorTop fromRect);
               toAnchor = (if rect_top fromRect < rect_top toRect
                           then anchorTop toRect
                           else vec_plus (anchorTop toRect) (Vec2 0 (rect_height toRect)));
               midpoint = vec_times (vec_plus fromAnchor toAnchor) (1 / 2)
           in case pathSegments positions to rest of
                Inl err \<Rightarrow> Inl err
              | Inr cmds \<Rightarrow>
                  Inr (SmoothTo (vec_x midpoint) (vec_y midpoint) (vec_x toAnchor) (vec_y toAnchor) # cmds))))"

definition edgePath :: "(ref \<times> rect) list \<Rightarrow> ref list \<Rightarrow> 'v error + pathCommand list" where
  "edgePath positions nodeList =
     (case nodeList of
        [] \<Rightarrow> Inl (MissingPosition None)
      | from # rest \<Rightarrow>
          (case map_of positions from of
             None \<Rightarrow> Inl (MissingPosition (Some from))
           | Some fromRect \<Rightarrow>
               (let fromAnchor = vec_plus (anchorTop fromRect) (Vec2 0 (rect_height fromRect))
                in case pathSegments positions from rest of
                     Inl err \<Rightarrow> Inl err
                   | Inr cmds \<Rightarrow> Inr (MoveTo (vec_x fromAnchor) (vec_y fromAnchor) # cmds))))"

fun makeEdgePaths_loop :: "(ref \<times> rect) list \<Rightarrow> ('v edge \<times> ref list) list \<Rightarrow> ('v edge \<times> pathCommand list) list
    \<Rightarrow> 'v error + ('v edge \<times> pathCommand list) list" where
  "makeEdgePaths_loop positions [] edgePaths = Inr edgePaths"
| "makeEdgePaths_loop positions ((e, nodeList) # rest) edgePaths =
     (case edgePath positions nodeList of
        Inl err \<Rightarrow> Inl err
      | Inr path \<Rightarrow> makeEdgePaths_loop positions rest (AList.update e path edgePaths))"

definition makeEdgePaths :: "('v edge \<times> ref list) list \<Rightarrow> (ref \<times> rect) list \<Rightarrow> 'v error + ('v edge \<times> pathCommand list) list" where
  "makeEdgePaths e2l positions = makeEdgePaths_loop positions e2l []"

section \<open>The pipeline\<close>

record 'v layout =
  layoutLevels :: "'v levelResult"
  nodePositions :: "(ref \<times> rect) list"
  edgePaths :: "('v edge \<times> pathCommand list) list"

definition layoutGraph :: "((ref \<Rightarrow> rat option) \<Rightarrow> ref list \<Rightarrow> ref list)
    \<Rightarrow> 'v graph \<Rightarrow> 'v error + 'v layout" where
  "layoutGraph sorter g =
     (let ranks = rankVertices g
      in case ranksToLevels sorter ranks (getEdges g) of
           Inl err \<Rightarrow> Inl err
         | Inr levelResult \<Rightarrow>
             (let positions = positionNodes (levelHeap levelResult) (levels levelResult)
              in case makeEdgePaths (edgeToLevelNodes levelResult) positions of
                   Inl err \<Rightarrow> Inl err
                 | Inr paths \<Rightarrow>
                     Inr \<lparr>layoutLevels = levelResult, nodePositions = positions, edgePaths = paths\<rparr>))"

section \<open>Notions used to state the properties\<close>

text \<open>
  The edge relation of a graph, the invariant that the container keeps between its four
  fields, paths, and the invariant of the ranking traversal: a vertex that is visited but not
  yet ranked is on the recursion stack.
\<close>

definition entering_rel :: "'v graph \<Rightarrow> ('v \<times> 'v) set" where
  "entering_rel g = {(edge_from e, v) | e v. e \<in> set (getEdgesEntering g v)}"

definition maxParentRank_of :: "'v graph \<Rightarrow> ('v \<rightharpoonup> int) \<Rightarrow> 'v \<Rightarrow> int" where
  "maxParentRank_of g rk v = fold (\<lambda>e m. max (the (rk (edge_from e))) m) (getEdgesEntering g v) (- 1)"

definition rank_ok :: "'v graph \<Rightarrow> ('v \<rightharpoonup> int) \<Rightarrow> bool" where
  "rank_ok g rk \<longleftrightarrow>
     (\<forall>v r. rk v = Some r \<longrightarrow>
        (\<forall>e \<in> set (getEdgesEntering g v). edge_from e \<in> dom rk) \<and> r = maxParentRank_of g rk v + 1)"

definition rank_inv :: "'v graph \<Rightarrow> 'v rank_state \<Rightarrow> bool" where
  "rank_inv g st \<longleftrightarrow> dom (map_of (snd st)) \<subseteq> fst st \<and> rank_ok g (map_of (snd st))"

definition grey :: "'v rank_state \<Rightarrow> 'v set" where
  "grey st = fst st - dom (map_of (snd st))"

definition rank_post :: "'v graph \<Rightarrow> 'v rank_state \<Rightarrow> 'v rank_state \<Rightarrow> bool" where
  "rank_post g st st' \<longleftrightarrow>
     rank_inv g st' \<and> grey st' = grey st \<and> map_of (snd st) \<subseteq>\<^sub>m map_of (snd st') \<and> fst st \<subseteq> fst st'"

definition edge_rel :: "'v graph \<Rightarrow> ('v \<times> 'v) set" where
  "edge_rel g = (\<lambda>e. (edge_from e, edge_to e)) ` set (edges g)"

definition graph_inv :: "'v graph \<Rightarrow> bool" where
  "graph_inv g \<longleftrightarrow>
     (\<forall>e \<in> set (edges g).
        edge_from e \<in> set (vertices g) \<and> edge_to e \<in> set (vertices g) \<and>
        e \<in> set (getEdgesEntering g (edge_to e)) \<and> e \<in> set (getEdgesLeaving g (edge_from e))) \<and>
     (\<forall>(v, es) \<in> set (edgesEnteringVertex g). \<forall>e \<in> set es. e \<in> set (edges g) \<and> edge_to e = v) \<and>
     (\<forall>(v, es) \<in> set (edgesLeavingVertex g). \<forall>e \<in> set es. e \<in> set (edges g) \<and> edge_from e = v)"

fun is_path :: "'v graph \<Rightarrow> 'v list \<Rightarrow> bool" where
  "is_path g [] = False"
| "is_path g [v] = True"
| "is_path g (u # v # p) = ((u, v) \<in> edge_rel g \<and> is_path g (v # p))"

definition diamond :: "nat graph" where
  "diamond = fold addEdge
     [\<lparr>ident = 0, edge_from = 0, edge_to = 1\<rparr>, \<lparr>ident = 1, edge_from = 0, edge_to = 2\<rparr>,
      \<lparr>ident = 2, edge_from = 1, edge_to = 3\<rparr>, \<lparr>ident = 3, edge_from = 2, edge_to = 3\<rparr>] emptyGraph"

text \<open>
  Level construction only ever adds: nodes to the heap, entries to the parent and child lists,
  nodes to the rows. The chain of an edge, read in the direction of increasing rank, starts
  at the real node of the lower endpoint, ends at the real node of the higher one, and has
  one virtual node in each row between them.
\<close>

definition level_row :: "'v levelState \<Rightarrow> int \<Rightarrow> ref list" where
  "level_row st rank = getOrElse (rankToLevel st) rank []"

definition heap_extends :: "'v levelNode list \<Rightarrow> 'v levelNode list \<Rightarrow> bool" where
  "heap_extends h h' \<longleftrightarrow>
     length h \<le> length h' \<and>
     (\<forall>n < length h.
        vertex (h' ! n) = vertex (h ! n) \<and>
        set (parents (h ! n)) \<subseteq> set (parents (h' ! n)) \<and>
        set (children (h ! n)) \<subseteq> set (children (h' ! n)))"

definition state_extends :: "'v levelState \<Rightarrow> 'v levelState \<Rightarrow> bool" where
  "state_extends st st' \<longleftrightarrow>
     heap_extends (heap st) (heap st') \<and>
     (\<forall>rank. set (level_row st rank) \<subseteq> set (level_row st' rank)) \<and>
     vertexToLevelNode st' = vertexToLevelNode st \<and>
     minRank st' = minRank st \<and> maxRank st' = maxRank st"

definition virtual_chain :: "'v levelNode list \<Rightarrow> (int \<Rightarrow> ref list) \<Rightarrow> ref \<Rightarrow> int \<Rightarrow> ref list \<Rightarrow> bool" where
  "virtual_chain h row p rank new \<longleftrightarrow>
     (\<forall>i < length new.
        new ! i < length h \<and> vertex (h ! (new ! i)) = None \<and>
        new ! i \<in> set (row (rank + int i)) \<and>
        (p # new) ! i \<in> set (parents (h ! (new ! i))) \<and>
        new ! i \<in> set (children (h ! ((p # new) ! i))))"

definition forward_chain :: "'v levelNode list \<Rightarrow> (int \<Rightarrow> ref list) \<Rightarrow> 'v \<Rightarrow> 'v \<Rightarrow> int \<Rightarrow> int \<Rightarrow> ref list \<Rightarrow> bool" where
  "forward_chain h row u v ru rv chain \<longleftrightarrow>
     ru \<le> rv \<and>
     length chain = nat (rv - ru + 1) \<and>
     (\<forall>n \<in> set chain. n < length h) \<and>
     vertex (h ! hd chain) = Some u \<and>
     vertex (h ! last chain) = Some v \<and>
     (\<forall>i. 0 < i \<and> i + 1 < length chain \<longrightarrow>
        vertex (h ! (chain ! i)) = None \<and> chain ! i \<in> set (row (ru + int i))) \<and>
     (\<forall>i. i + 1 < length chain \<longrightarrow>
        chain ! (i + 1) \<in> set (children (h ! (chain ! i))) \<and>
        chain ! i \<in> set (parents (h ! (chain ! (i + 1)))))"

definition edge_chain :: "('v \<times> int) list \<Rightarrow> 'v levelNode list \<Rightarrow> (int \<Rightarrow> ref list) \<Rightarrow> 'v edge \<Rightarrow> ref list \<Rightarrow> bool" where
  "edge_chain ranks h row e chain \<longleftrightarrow>
     (\<forall>ru rv. map_of ranks (edge_from e) = Some ru \<and> map_of ranks (edge_to e) = Some rv \<longrightarrow>
        (if ru \<le> rv then forward_chain h row (edge_from e) (edge_to e) ru rv chain
         else forward_chain h row (edge_to e) (edge_from e) rv ru (rev chain)))"

definition node_inv :: "'v levelState \<Rightarrow> bool" where
  "node_inv st \<longleftrightarrow>
     (\<forall>v n. map_of (vertexToLevelNode st) v = Some n \<longrightarrow>
        n < length (heap st) \<and> vertex (heap st ! n) = Some v)"

definition erase_index :: "'v levelNode list \<Rightarrow> 'v levelNode list" where
  "erase_index h = map (\<lambda>n. n\<lparr>index := 0\<rparr>) h"

definition chains_ok :: "('v \<times> int) list \<Rightarrow> 'v levelState \<Rightarrow> ('v edge \<times> ref list) list \<Rightarrow> bool" where
  "chains_ok ranks st m \<longleftrightarrow>
     (\<forall>e chain. map_of m e = Some chain \<longrightarrow> edge_chain ranks (heap st) (level_row st) e chain)"

definition rowIndex :: "('v \<times> int) list \<Rightarrow> int \<Rightarrow> nat" where
  "rowIndex ranks r = nat (r - minRank (fold addRankedVertex ranks emptyLevelState))"

text \<open>
  Two small inputs of level construction: a path \<open>0 \<rightarrow> 1 \<rightarrow> 2\<close> with the long edge
  \<open>0 \<rightarrow> 2\<close> and a self-loop, and a single edge that runs against the ranks.
\<close>

definition chainRanks :: "(nat \<times> int) list" where
  "chainRanks = [(0, 0), (1, 1), (2, 2)]"

definition chainEdges :: "nat edge list" where
  "chainEdges = [\<lparr>ident = 0, edge_from = 0, edge_to = 1\<rparr>, \<lparr>ident = 1, edge_from = 1, edge_to = 2\<rparr>,
                 \<lparr>ident = 2, edge_from = 0, edge_to = 2\<rparr>, \<lparr>ident = 3, edge_from = 1, edge_to = 1\<rparr>]"

definition chainResult :: "nat levelResult" where
  "chainResult =
     \<lparr>levels = [[0], [1, 3], [2]],
      edgeToLevelNodes =
        [(\<lparr>ident = 0, edge_from = 0, edge_to = 1\<rparr>, [0, 1]),
         (\<lparr>ident = 1, edge_from = 1, edge_to = 2\<rparr>, [1, 2]),
         (\<lparr>ident = 2, edge_from = 0, edge_to = 2\<rparr>, [0, 3, 2]),
         (\<lparr>ident = 3, edge_from = 1, edge_to = 1\<rparr>, [1])],
      levelHeap =
        [\<lparr>parents = [], children = [1, 3], vertex = Some 0, index = 0\<rparr>,
         \<lparr>parents = [0], children = [2], vertex = Some 1, index = 0\<rparr>,
         \<lparr>parents = [1, 3], children = [], vertex = Some 2, index = 0\<rparr>,
         \<lparr>parents = [0], children = [2], vertex = None, index = 1\<rparr>]\<rparr>"

definition backRanks :: "(nat \<times> int) list" where
  "backRanks = [(1, 0), (0, 2)]"

definition backEdges :: "nat edge list" where
  "backEdges = [\<lparr>ident = 0, edge_from = 0, edge_to = 1\<rparr>]"

definition backResult :: "nat levelResult" where
  "backResult =
     \<lparr>levels = [[0], [2], [1]],
      edgeToLevelNodes = [(\<lparr>ident = 0, edge_from = 0, edge_to = 1\<rparr>, [1, 2, 0])],
      levelHeap =
        [\<lparr>parents = [], children = [2], vertex = Some 1, index = 0\<rparr>,
         \<lparr>parents = [2], children = [], vertex = Some 0, index = 0\<rparr>,
         \<lparr>parents = [0], children = [1], vertex = None, index = 0\<rparr>]\<rparr>"



text \<open>
  A graph with a cycle, \<open>0 \<rightarrow> 1\<close> and \<open>1 \<rightarrow> 0\<close>, and what the pipeline makes of it: vertex
  \<open>1\<close> gets rank 0 and the node \<open>0\<close>, vertex \<open>0\<close> gets rank 1 and the node \<open>1\<close>, and the
  edge \<open>0 \<rightarrow> 1\<close> runs upwards.
\<close>

definition cycleGraph :: "nat graph" where
  "cycleGraph = fold addEdge
     [\<lparr>ident = 0, edge_from = 0, edge_to = 1\<rparr>, \<lparr>ident = 1, edge_from = 1, edge_to = 0\<rparr>] emptyGraph"

definition cycleLayout :: "nat layout" where
  "cycleLayout =
     \<lparr>layoutLevels =
        \<lparr>levels = [[0], [1]],
         edgeToLevelNodes =
           [(\<lparr>ident = 0, edge_from = 0, edge_to = 1\<rparr>, [1, 0]),
            (\<lparr>ident = 1, edge_from = 1, edge_to = 0\<rparr>, [0, 1])],
         levelHeap =
           [\<lparr>parents = [], children = [1, 1], vertex = Some 1, index = 0\<rparr>,
            \<lparr>parents = [0, 0], children = [], vertex = Some 0, index = 0\<rparr>]\<rparr>,
      nodePositions =
        [(0, Rect (Vec2 0 0) (Vec2 115 25)),
         (1, Rect (Vec2 0 70) (Vec2 115 25))],
      edgePaths =
        [(\<lparr>ident = 0, edge_from = 0, edge_to = 1\<rparr>,
          [MoveTo (115 / 2) 95, SmoothTo (115 / 2) (95 / 2) (115 / 2) 25]),
         (\<lparr>ident = 1, edge_from = 1, edge_to = 0\<rparr>,
          [MoveTo (115 / 2) 25, SmoothTo (115 / 2) (95 / 2) (115 / 2) 70])]\<rparr>"

text \<open>
  The errors of the stages: building the levels can fail only in \<open>handleEdge\<close>, with one of
  its four errors; routing the edges can fail only for a missing position.
\<close>

definition levelError :: "'v error \<Rightarrow> bool" where
  "levelError err \<longleftrightarrow>
     (case err of
        MissingLevelNodeOrSelfCycle \<Rightarrow> True
      | VertexWithNoRank \<Rightarrow> True
      | SidewaysEdge from to \<Rightarrow> True
      | MissingLevelNode \<Rightarrow> True
      | MissingPosition n \<Rightarrow> False)"

definition pathError :: "'v error \<Rightarrow> bool" where
  "pathError err \<longleftrightarrow> (case err of MissingPosition n \<Rightarrow> True | _ \<Rightarrow> False)"

text \<open>
  A graph with a cycle, a self-loop and two parallel edges.
\<close>

definition loopyGraph :: "nat graph" where
  "loopyGraph = fold addEdge
     [\<lparr>ident = 0, edge_from = 0, edge_to = 1\<rparr>, \<lparr>ident = 1, edge_from = 1, edge_to = 0\<rparr>,
      \<lparr>ident = 2, edge_from = 0, edge_to = 0\<rparr>, \<lparr>ident = 3, edge_from = 0, edge_to = 1\<rparr>,
      \<lparr>ident = 4, edge_from = 1, edge_to = 2\<rparr>] emptyGraph"

text \<open>
  The crossing-minimization passes in the words of the spec: the mean column index of a list
  of nodes, undefined for the empty list; a row sorted stably by a weight, the nodes without
  a weight being ignored, that is, left where they are; and one full pass, a sweep from the
  top row to the bottom row by the parent weight followed by a sweep from the bottom row to
  the top row by the child weight.
\<close>

definition meanIndex :: "'v levelNode list \<Rightarrow> ref list \<Rightarrow> rat option" where
  "meanIndex h ns =
     (if ns = [] then None
      else Some (sum_list (map (\<lambda>n. of_nat (index (h ! n))) ns) / of_nat (length ns)))"

definition stablySorted :: "('a \<Rightarrow> rat option) \<Rightarrow> 'a list \<Rightarrow> 'a list \<Rightarrow> bool" where
  "stablySorted key ts ss \<longleftrightarrow>
     mset ss = mset ts \<and>
     (\<forall>j < length ts. key (ts ! j) = None \<longrightarrow> ss ! j = ts ! j) \<and>
     sorted (map (\<lambda>t. the (key t)) (filter (\<lambda>t. key t \<noteq> None) ss)) \<and>
     (\<forall>w. filter (\<lambda>t. key t = Some w) ss = filter (\<lambda>t. key t = Some w) ts)"

definition fullPass :: "((ref \<Rightarrow> rat option) \<Rightarrow> ref list \<Rightarrow> ref list)
    \<Rightarrow> ref list list \<times> 'v levelNode list \<Rightarrow> ref list list \<times> 'v levelNode list" where
  "fullPass sorter acc =
     fold (sortLevel sorter levelNodeChildWeight) (rev [0..<length (fst acc)])
       (fold (sortLevel sorter levelNodeParentWeight) [0..<length (fst acc)] acc)"

section \<open>Rank assignment on acyclic graphs\<close>

lemma fold_max_cong:
  assumes "\<And>e. e \<in> set es \<Longrightarrow> f e = f' e"
  shows "fold (\<lambda>e m. max (f e) m) es i = fold (\<lambda>e m. max (f' e) m) es (i::int)"
  using assms by (induction es arbitrary: i) auto

lemma maxParentRank_of_cong:
  assumes "\<And>e. e \<in> set (getEdgesEntering g v) \<Longrightarrow> rk (edge_from e) = rk' (edge_from e)"
  shows "maxParentRank_of g rk v = maxParentRank_of g rk' v"
  unfolding maxParentRank_of_def using assms by (intro fold_max_cong) simp

lemma rank_ok_extend:
  assumes ok: "rank_ok g rk" and v: "v \<notin> dom rk"
    and srcs: "\<forall>e \<in> set (getEdgesEntering g v). edge_from e \<in> dom rk"
    and r: "r = maxParentRank_of g rk v + 1"
  shows "rank_ok g (rk(v \<mapsto> r))"
  unfolding rank_ok_def
proof (intro allI impI)
  fix w s
  assume w: "(rk(v \<mapsto> r)) w = Some s"
  show "(\<forall>e\<in>set (getEdgesEntering g w). edge_from e \<in> dom (rk(v \<mapsto> r))) \<and>
        s = maxParentRank_of g (rk(v \<mapsto> r)) w + 1"
  proof (cases "w = v")
    case True
    have "maxParentRank_of g (rk(v \<mapsto> r)) v = maxParentRank_of g rk v"
      using srcs v by (intro maxParentRank_of_cong) auto
    with True w r srcs show ?thesis by auto
  next
    case False
    with w have rw: "rk w = Some s" by simp
    with ok have a: "\<forall>e\<in>set (getEdgesEntering g w). edge_from e \<in> dom rk"
      and b: "s = maxParentRank_of g rk w + 1"
      unfolding rank_ok_def by blast+
    have "maxParentRank_of g (rk(v \<mapsto> r)) w = maxParentRank_of g rk w"
      using a v by (intro maxParentRank_of_cong) auto
    with a b show ?thesis by auto
  qed
qed

lemma getRank_correct:
  "acyclic (entering_rel g) \<Longrightarrow> rank_inv g st \<Longrightarrow> (\<forall>w \<in> grey st. (v, w) \<in> (entering_rel g)\<^sup>+) \<Longrightarrow>
     rank_post g st (snd (getRank g v st)) \<and> map_of (snd (snd (getRank g v st))) v = Some (fst (getRank g v st))"
  "acyclic (entering_rel g) \<Longrightarrow> rank_inv g st \<Longrightarrow>
     (\<forall>e \<in> set es. \<forall>w \<in> grey st. (edge_from e, w) \<in> (entering_rel g)\<^sup>+) \<Longrightarrow>
     rank_post g st (snd (getRank_loop g es m st)) \<and>
     (\<forall>e \<in> set es. edge_from e \<in> dom (map_of (snd (snd (getRank_loop g es m st))))) \<and>
     fst (getRank_loop g es m st)
       = fold (\<lambda>e acc. max (the (map_of (snd (snd (getRank_loop g es m st))) (edge_from e))) acc) es m"
proof (induction g v st and g es m st rule: getRank_getRank_loop.induct)
  case (1 g v visited ranks)
  let ?R = "entering_rel g"
  show ?case
  proof (cases "v \<in> visited")
    case True
    have "v \<notin> grey (visited, ranks)"
    proof
      assume "v \<in> grey (visited, ranks)"
      with "1.prems"(3) have "(v, v) \<in> ?R\<^sup>+" by blast
      with "1.prems"(1) show False by (simp add: acyclic_def)
    qed
    with True obtain r where r: "map_of ranks v = Some r"
      by (auto simp: grey_def)
    with True "1.prems"(2) show ?thesis
      by (simp add: rank_post_def)
  next
    case False
    let ?st1 = "(insert v visited, ranks)"
    let ?res = "getRank_loop g (getEdgesEntering g v) (- 1) ?st1"
    obtain m visited' ranks' where res: "?res = (m, (visited', ranks'))"
      by (metis prod.exhaust)
    have vnd: "v \<notin> dom (map_of ranks)"
      using False "1.prems"(2) by (auto simp: rank_inv_def)
    have inv1: "rank_inv g ?st1"
      using "1.prems"(2) by (auto simp: rank_inv_def)
    have grey1: "grey ?st1 = insert v (grey (visited, ranks))"
      using vnd by (auto simp: grey_def)
    have pre: "\<forall>e\<in>set (getEdgesEntering g v). \<forall>w\<in>grey ?st1. (edge_from e, w) \<in> ?R\<^sup>+"
    proof (intro ballI)
      fix e w assume e: "e \<in> set (getEdgesEntering g v)" and w: "w \<in> grey ?st1"
      from e have ev: "(edge_from e, v) \<in> ?R" by (auto simp: entering_rel_def)
      show "(edge_from e, w) \<in> ?R\<^sup>+"
      proof (cases "w = v")
        case True
        with ev show ?thesis by auto
      next
        case False
        with w grey1 have "w \<in> grey (visited, ranks)" by simp
        with "1.prems"(3) have "(v, w) \<in> ?R\<^sup>+" by blast
        with ev show ?thesis by (rule trancl_into_trancl2)
      qed
    qed
    from "1.IH"[OF False "1.prems"(1) inv1 pre] res
    have post: "rank_post g ?st1 (visited', ranks')"
      and srcs: "\<forall>e\<in>set (getEdgesEntering g v). edge_from e \<in> dom (map_of ranks')"
      and m: "m = maxParentRank_of g (map_of ranks') v"
      by (simp_all add: maxParentRank_of_def)
    from post grey1 have g': "grey (visited', ranks') = insert v (grey (visited, ranks))"
      by (simp add: rank_post_def)
    then have v': "v \<in> visited'" "v \<notin> dom (map_of ranks')"
      by (auto simp: grey_def)
    have vng: "v \<notin> grey (visited, ranks)"
      using False by (simp add: grey_def)
    have ok': "rank_ok g ((map_of ranks')(v \<mapsto> m + 1))"
      using post v'(2) srcs m by (intro rank_ok_extend) (auto simp: rank_post_def rank_inv_def)
    have val: "getRank g v (visited, ranks) = (m + 1, (visited', AList.update v (m + 1) ranks'))"
      using False res by (simp add: Let_def)
    have "rank_post g (visited, ranks) (visited', AList.update v (m + 1) ranks')"
      unfolding rank_post_def
    proof (intro conjI)
      show "rank_inv g (visited', AList.update v (m + 1) ranks')"
        using ok' post v'(1) by (auto simp: rank_inv_def rank_post_def update_conv' dom_update)
      show "grey (visited', AList.update v (m + 1) ranks') = grey (visited, ranks)"
        using g' vng by (auto simp: grey_def update_conv')
      have "map_of ranks \<subseteq>\<^sub>m map_of ranks'"
        using post by (simp add: rank_post_def)
      then show "map_of (snd (visited, ranks)) \<subseteq>\<^sub>m map_of (snd (visited', AList.update v (m + 1) ranks'))"
        using vnd by (auto simp: map_le_def update_conv')
      show "fst (visited, ranks) \<subseteq> fst (visited', AList.update v (m + 1) ranks')"
        using post by (auto simp: rank_post_def)
    qed
    then show ?thesis
      unfolding val by (simp add: update_conv')
  qed
next
  case (2 g maxParentRank st)
  then show ?case
    by (simp add: rank_post_def)
next
  case (3 g enteringEdge rest maxParentRank st)
  let ?R = "entering_rel g"
  obtain r st' where res: "getRank g (edge_from enteringEdge) st = (r, st')"
    by (metis prod.exhaust)
  have "\<forall>w\<in>grey st. (edge_from enteringEdge, w) \<in> ?R\<^sup>+"
    using "3.prems"(3) by simp
  from "3.IH"(1)[OF "3.prems"(1,2) this] res
  have post1: "rank_post g st st'" and r: "map_of (snd st') (edge_from enteringEdge) = Some r"
    by simp_all
  have inv': "rank_inv g st'" and g': "grey st' = grey st"
    using post1 by (simp_all add: rank_post_def)
  have pre': "\<forall>e\<in>set rest. \<forall>w\<in>grey st'. (edge_from e, w) \<in> ?R\<^sup>+"
    using "3.prems"(3) g' by simp
  let ?res2 = "getRank_loop g rest (max r maxParentRank) st'"
  from "3.IH"(2)[OF res[symmetric] "3.prems"(1) inv' pre']
  have post2: "rank_post g st' (snd ?res2)"
    and srcs: "\<forall>e\<in>set rest. edge_from e \<in> dom (map_of (snd (snd ?res2)))"
    and val: "fst ?res2 = fold (\<lambda>e acc. max (the (map_of (snd (snd ?res2)) (edge_from e))) acc) rest (max r maxParentRank)"
    by simp_all
  have le: "map_of (snd st') \<subseteq>\<^sub>m map_of (snd (snd ?res2))"
    using post2 by (simp add: rank_post_def)
  with r have r2: "map_of (snd (snd ?res2)) (edge_from enteringEdge) = Some r"
    by (metis domI map_le_def)
  have eq: "getRank_loop g (enteringEdge # rest) maxParentRank st = ?res2"
    using res by simp
  have "rank_post g st (snd ?res2)"
    using post1 post2 unfolding rank_post_def by (auto intro: map_le_trans)
  with srcs val r2 show ?case
    unfolding eq by auto
qed

lemma set_add_set [simp]: "set (set_add x xs) = insert x (set xs)"
  by (auto simp: set_add_def)

lemma graph_inv_empty: "graph_inv emptyGraph"
  by (simp add: graph_inv_def emptyGraph_def)

lemma graph_inv_addVertex: "graph_inv g \<Longrightarrow> graph_inv (addVertex v g)"
  by (simp add: graph_inv_def addVertex_def getEdgesEntering_def getEdgesLeaving_def)

lemma getOrInsert_add:
  "(case getOrInsert m k [] of (l, m') \<Rightarrow> AList.update k (set_add e l) m')
     = AList.update k (set_add e (case map_of m k of Some l \<Rightarrow> l | None \<Rightarrow> [])) m"
  by (simp add: getOrInsert_def split: option.splits)

lemma addEdge_fields:
  "vertices (addEdge e g) = set_add (edge_to e) (set_add (edge_from e) (vertices g))"
  "edges (addEdge e g) = set_add e (edges g)"
  "edgesEnteringVertex (addEdge e g)
     = AList.update (edge_to e) (set_add e (getEdgesEntering g (edge_to e))) (edgesEnteringVertex g)"
  "edgesLeavingVertex (addEdge e g)
     = AList.update (edge_from e) (set_add e (getEdgesLeaving g (edge_from e))) (edgesLeavingVertex g)"
  by (simp_all add: addEdge_def addVertex_def Let_def getOrInsert_def getEdgesEntering_def
      getEdgesLeaving_def split: option.splits prod.splits)

lemma getEdgesEntering_addEdge:
  "getEdgesEntering (addEdge e g) v
     = (if v = edge_to e then set_add e (getEdgesEntering g v) else getEdgesEntering g v)"
  by (simp add: getEdgesEntering_def addEdge_fields(3) update_conv')

lemma getEdgesLeaving_addEdge:
  "getEdgesLeaving (addEdge e g) v
     = (if v = edge_from e then set_add e (getEdgesLeaving g v) else getEdgesLeaving g v)"
  by (simp add: getEdgesLeaving_def addEdge_fields(4) update_conv')

lemma in_set_update:
  "(k', v') \<in> set (AList.update k v al) \<Longrightarrow> (k', v') = (k, v) \<or> (k', v') \<in> set al"
  by (induction al) (auto split: if_splits)

lemma getEdgesEntering_in:
  "e \<in> set (getEdgesEntering g v) \<Longrightarrow> \<exists>es. (v, es) \<in> set (edgesEnteringVertex g) \<and> e \<in> set es"
  by (cases "map_of (edgesEnteringVertex g) v") (auto simp: getEdgesEntering_def dest: map_of_SomeD)

lemma getEdgesLeaving_in:
  "e \<in> set (getEdgesLeaving g v) \<Longrightarrow> \<exists>es. (v, es) \<in> set (edgesLeavingVertex g) \<and> e \<in> set es"
  by (cases "map_of (edgesLeavingVertex g) v") (auto simp: getEdgesLeaving_def dest: map_of_SomeD)

lemma graph_inv_addEdge:
  assumes "graph_inv g"
  shows "graph_inv (addEdge e g)"
proof -
  have a: "\<forall>e' \<in> set (edges g).
        edge_from e' \<in> set (vertices g) \<and> edge_to e' \<in> set (vertices g) \<and>
        e' \<in> set (getEdgesEntering g (edge_to e')) \<and> e' \<in> set (getEdgesLeaving g (edge_from e'))"
    and b: "\<And>v es e'. (v, es) \<in> set (edgesEnteringVertex g) \<Longrightarrow> e' \<in> set es \<Longrightarrow> e' \<in> set (edges g) \<and> edge_to e' = v"
    and c: "\<And>v es e'. (v, es) \<in> set (edgesLeavingVertex g) \<Longrightarrow> e' \<in> set es \<Longrightarrow> e' \<in> set (edges g) \<and> edge_from e' = v"
    using assms unfolding graph_inv_def by blast+
  have 1: "\<forall>e' \<in> set (edges (addEdge e g)).
        edge_from e' \<in> set (vertices (addEdge e g)) \<and> edge_to e' \<in> set (vertices (addEdge e g)) \<and>
        e' \<in> set (getEdgesEntering (addEdge e g) (edge_to e')) \<and>
        e' \<in> set (getEdgesLeaving (addEdge e g) (edge_from e'))"
    using a by (auto simp: addEdge_fields(1,2) getEdgesEntering_addEdge getEdgesLeaving_addEdge)
  have 2: "e' \<in> set (edges (addEdge e g)) \<and> edge_to e' = v"
    if "(v, es) \<in> set (edgesEnteringVertex (addEdge e g))" "e' \<in> set es" for v es e'
  proof -
    from that(1) consider "(v, es) = (edge_to e, set_add e (getEdgesEntering g (edge_to e)))"
      | "(v, es) \<in> set (edgesEnteringVertex g)"
      unfolding addEdge_fields(3) by (blast dest: in_set_update)
    then show ?thesis
    proof cases
      case 1
      with that(2) have "e' = e \<or> e' \<in> set (getEdgesEntering g (edge_to e))" by auto
      then show ?thesis
        using 1 b by (auto simp: addEdge_fields(2) dest!: getEdgesEntering_in)
    next
      case 2
      with b that(2) show ?thesis by (auto simp: addEdge_fields(2))
    qed
  qed
  have 3: "e' \<in> set (edges (addEdge e g)) \<and> edge_from e' = v"
    if "(v, es) \<in> set (edgesLeavingVertex (addEdge e g))" "e' \<in> set es" for v es e'
  proof -
    from that(1) consider "(v, es) = (edge_from e, set_add e (getEdgesLeaving g (edge_from e)))"
      | "(v, es) \<in> set (edgesLeavingVertex g)"
      unfolding addEdge_fields(4) by (blast dest: in_set_update)
    then show ?thesis
    proof cases
      case 1
      with that(2) have "e' = e \<or> e' \<in> set (getEdgesLeaving g (edge_from e))" by auto
      then show ?thesis
        using 1 c by (auto simp: addEdge_fields(2) dest!: getEdgesLeaving_in)
    next
      case 2
      with c that(2) show ?thesis by (auto simp: addEdge_fields(2))
    qed
  qed
  show ?thesis
    unfolding graph_inv_def using 1 2 3 by blast
qed

lemma graph_inv_entering:
  assumes "graph_inv g"
  shows "set (getEdgesEntering g v) = {e \<in> set (edges g). edge_to e = v}"
proof -
  have "e \<in> set (edges g) \<and> edge_to e = v" if "e \<in> set (getEdgesEntering g v)" for e
    using getEdgesEntering_in[OF that] assms unfolding graph_inv_def by blast
  moreover have "e \<in> set (getEdgesEntering g v)" if "e \<in> set (edges g)" "edge_to e = v" for e
    using that assms unfolding graph_inv_def by blast
  ultimately show ?thesis by blast
qed

lemma graph_inv_rel:
  assumes "graph_inv g"
  shows "entering_rel g = edge_rel g"
  unfolding entering_rel_def edge_rel_def graph_inv_entering[OF assms] by auto

lemma rank_fold_correct:
  assumes "acyclic (entering_rel g)" and "rank_inv g st" and "grey st = {}"
  shows "rank_inv g (fold (\<lambda>v st. snd (getRank g v st)) vs st)
       \<and> grey (fold (\<lambda>v st. snd (getRank g v st)) vs st) = {}
       \<and> set vs \<subseteq> dom (map_of (snd (fold (\<lambda>v st. snd (getRank g v st)) vs st)))
       \<and> map_of (snd st) \<subseteq>\<^sub>m map_of (snd (fold (\<lambda>v st. snd (getRank g v st)) vs st))"
  using assms(2,3)
proof (induction vs arbitrary: st)
  case Nil
  then show ?case by simp
next
  case (Cons v vs)
  let ?st1 = "snd (getRank g v st)"
  have "\<forall>w \<in> grey st. (v, w) \<in> (entering_rel g)\<^sup>+"
    using Cons.prems(2) by simp
  from getRank_correct(1)[OF assms(1) Cons.prems(1) this]
  have post: "rank_post g st ?st1" and v: "v \<in> dom (map_of (snd ?st1))"
    by auto
  then have inv1: "rank_inv g ?st1" and g1: "grey ?st1 = {}" and le1: "map_of (snd st) \<subseteq>\<^sub>m map_of (snd ?st1)"
    using Cons.prems(2) by (simp_all add: rank_post_def)
  from Cons.IH[OF inv1 g1]
  have IH: "rank_inv g (fold (\<lambda>v st. snd (getRank g v st)) vs ?st1)"
    "grey (fold (\<lambda>v st. snd (getRank g v st)) vs ?st1) = {}"
    "set vs \<subseteq> dom (map_of (snd (fold (\<lambda>v st. snd (getRank g v st)) vs ?st1)))"
    "map_of (snd ?st1) \<subseteq>\<^sub>m map_of (snd (fold (\<lambda>v st. snd (getRank g v st)) vs ?st1))"
    by blast+
  from v IH(4) have "v \<in> dom (map_of (snd (fold (\<lambda>v st. snd (getRank g v st)) vs ?st1)))"
    using map_le_implies_dom_le by blast
  with IH le1 show ?case
    by (auto intro: map_le_trans)
qed

lemma rankVertices_ok:
  assumes "acyclic (entering_rel g)"
  shows "rank_ok g (map_of (rankVertices g))" and "set (vertices g) \<subseteq> dom (map_of (rankVertices g))"
proof -
  have "rank_inv g ({}, [])" and "grey ({}, []) = {}"
    by (simp_all add: rank_inv_def rank_ok_def grey_def)
  from rank_fold_correct[OF assms this, of "getVertices g"]
  show "rank_ok g (map_of (rankVertices g))" and "set (vertices g) \<subseteq> dom (map_of (rankVertices g))"
    by (simp_all add: rankVertices_def rank_inv_def getVertices_def)
qed

lemma fold_max_Max:
  "fold (\<lambda>e m. max (f e) m) es (i::int) = Max (insert i (f ` set es))"
proof (induction es arbitrary: i)
  case Nil
  then show ?case by simp
next
  case (Cons e es)
  have "Max (insert (max (f e) i) (f ` set es)) = Max (insert i (insert (f e) (f ` set es)))"
  proof (cases "es = []")
    case True
    then show ?thesis by (simp add: max.commute)
  next
    case False
    then have ne: "f ` set es \<noteq> {}" and fin: "finite (f ` set es)" by auto
    have "Max (insert (max (f e) i) (f ` set es)) = max (max (f e) i) (Max (f ` set es))"
      by (fact Max_insert[OF fin ne])
    also have "\<dots> = max i (max (f e) (Max (f ` set es)))"
      by linarith
    also have "max (f e) (Max (f ` set es)) = Max (insert (f e) (f ` set es))"
      by (fact Max_insert[OF fin ne, symmetric])
    also have "max i (Max (insert (f e) (f ` set es))) = Max (insert i (insert (f e) (f ` set es)))"
      using fin by (intro Max_insert[symmetric]) auto
    finally show ?thesis .
  qed
  with Cons show ?case by simp
qed

lemma maxParentRank_of_nonempty:
  assumes "getEdgesEntering g v \<noteq> []" and "\<forall>e \<in> set (getEdgesEntering g v). 0 \<le> the (rk (edge_from e))"
  shows "maxParentRank_of g rk v = Max ((\<lambda>e. the (rk (edge_from e))) ` set (getEdgesEntering g v))"
proof -
  define S where "S = (\<lambda>e. the (rk (edge_from e))) ` set (getEdgesEntering g v)"
  have fin: "finite S" and ne: "S \<noteq> {}" using assms(1) by (auto simp: S_def)
  have 1: "maxParentRank_of g rk v = Max (insert (- 1) S)"
    by (simp add: maxParentRank_of_def fold_max_Max S_def)
  have 2: "Max (insert (- 1) S) = max (- 1) (Max S)"
    by (fact Max_insert[OF fin ne])
  obtain x where x: "x \<in> S" using ne by blast
  with assms(2) have "0 \<le> x" by (auto simp: S_def)
  moreover have "x \<le> Max S" using fin x by (rule Max_ge)
  ultimately have "max (- 1) (Max S) = Max S" by linarith
  with 1 2 show ?thesis unfolding S_def by linarith
qed

lemma maxParentRank_of_ge: "- 1 \<le> maxParentRank_of g rk v"
  by (simp add: maxParentRank_of_def fold_max_Max)

lemma maxParentRank_of_ge_parent:
  "e \<in> set (getEdgesEntering g v) \<Longrightarrow> the (rk (edge_from e)) \<le> maxParentRank_of g rk v"
  by (simp add: maxParentRank_of_def fold_max_Max)

lemma rank_ok_nonneg: "rank_ok g rk \<Longrightarrow> rk v = Some r \<Longrightarrow> 0 \<le> r"
  using maxParentRank_of_ge[of g rk v] unfolding rank_ok_def by fastforce

lemma rank_ok_edge:
  assumes "rank_ok g rk" and "rk v = Some r" and "e \<in> set (getEdgesEntering g v)"
  shows "\<exists>ru. rk (edge_from e) = Some ru \<and> ru + 1 \<le> r"
proof -
  from assms have "edge_from e \<in> dom rk" and r: "r = maxParentRank_of g rk v + 1"
    unfolding rank_ok_def by blast+
  then obtain ru where ru: "rk (edge_from e) = Some ru" by blast
  with maxParentRank_of_ge_parent[OF assms(3), of rk] r show ?thesis by simp
qed

text \<open>
  C3. In an acyclic graph the rank strictly increases along every edge: both endpoints
  are ranked and the rank of the target is at least the rank of the source plus one.
\<close>

theorem rank_increases_along_edges:
  assumes "graph_inv g" and "acyclic (edge_rel g)" and "e \<in> set (getEdges g)"
  shows "\<exists>ru rv. map_of (rankVertices g) (edge_from e) = Some ru
             \<and> map_of (rankVertices g) (edge_to e) = Some rv \<and> ru + 1 \<le> rv"
proof -
  have acyc: "acyclic (entering_rel g)"
    using assms(1,2) by (simp add: graph_inv_rel)
  from assms(1,3) have "edge_to e \<in> set (vertices g)" and ent: "e \<in> set (getEdgesEntering g (edge_to e))"
    unfolding graph_inv_def getEdges_def by blast+
  with rankVertices_ok(2)[OF acyc] obtain rv where rv: "map_of (rankVertices g) (edge_to e) = Some rv"
    by blast
  from rank_ok_edge[OF rankVertices_ok(1)[OF acyc] rv ent] rv show ?thesis by blast
qed

lemma is_path_snoc:
  "is_path g p \<Longrightarrow> (last p, v) \<in> edge_rel g \<Longrightarrow> is_path g (p @ [v])"
  by (induction p rule: induct_list012) auto

lemma is_path_nonempty: "is_path g p \<Longrightarrow> p \<noteq> []"
  by auto

lemma path_rank_le:
  assumes ok: "rank_ok g rk" and rel: "entering_rel g = edge_rel g"
  shows "is_path g p \<Longrightarrow> rk (last p) = Some r \<Longrightarrow>
         \<exists>r0. rk (hd p) = Some r0 \<and> r0 + int (length p) - 1 \<le> r"
proof (induction p rule: induct_list012)
  case 1
  then show ?case by simp
next
  case (2 v)
  then show ?case by simp
next
  case (3 u v p)
  from "3.prems" have uv: "(u, v) \<in> edge_rel g" and path: "is_path g (v # p)"
    and last: "rk (last (v # p)) = Some r" by simp_all
  from "3.IH"(2)[OF path last] obtain rv where rv: "rk v = Some rv" "rv + int (length (v # p)) - 1 \<le> r"
    by auto
  from uv rel have "(u, v) \<in> entering_rel g" by simp
  then obtain e where e: "e \<in> set (getEdgesEntering g v)" "edge_from e = u"
    unfolding entering_rel_def by blast
  from rank_ok_edge[OF ok rv(1) e(1)] e(2) obtain ru where "rk u = Some ru" "ru + 1 \<le> rv"
    by auto
  with rv(2) show ?case by simp
qed

lemma longest_path_exists:
  assumes ok: "rank_ok g rk" and rel: "entering_rel g = edge_rel g"
  shows "rk v = Some r \<Longrightarrow> nat r = n \<Longrightarrow>
         \<exists>p. is_path g p \<and> last p = v \<and> getEdgesEntering g (hd p) = [] \<and> int (length p) - 1 = r"
proof (induction n arbitrary: v r rule: less_induct)
  case (less n)
  have r0: "0 \<le> r" using rank_ok_nonneg[OF ok less.prems(1)] .
  from ok less.prems(1) have srcs: "\<forall>e\<in>set (getEdgesEntering g v). edge_from e \<in> dom rk"
    and r: "r = maxParentRank_of g rk v + 1"
    unfolding rank_ok_def by blast+
  show ?case
  proof (cases "getEdgesEntering g v = []")
    case True
    with r have "r = 0" by (simp add: maxParentRank_of_def)
    with True show ?thesis by (intro exI[of _ "[v]"]) simp
  next
    case False
    define S where "S = (\<lambda>e. the (rk (edge_from e))) ` set (getEdgesEntering g v)"
    have nonneg: "\<forall>e\<in>set (getEdgesEntering g v). 0 \<le> the (rk (edge_from e))"
      using srcs rank_ok_nonneg[OF ok] by fastforce
    have "maxParentRank_of g rk v = Max S"
      unfolding S_def using False nonneg by (rule maxParentRank_of_nonempty)
    moreover have "Max S \<in> S"
      using False by (intro Max_in) (auto simp: S_def)
    ultimately obtain e where e: "e \<in> set (getEdgesEntering g v)"
      and val: "the (rk (edge_from e)) = r - 1"
      using r by (auto simp: S_def)
    with srcs have ru: "rk (edge_from e) = Some (r - 1)" by fastforce
    from rank_ok_nonneg[OF ok ru] have "nat (r - 1) < n"
      using less.prems(2) by linarith
    from less.IH[OF this ru refl] obtain p where p: "is_path g p" "last p = edge_from e"
      "getEdgesEntering g (hd p) = []" "int (length p) - 1 = r - 1"
      by blast
    from e have "(edge_from e, v) \<in> edge_rel g"
      using rel by (auto simp: entering_rel_def)
    with p(1,2) have "is_path g (p @ [v])" by (simp add: is_path_snoc)
    moreover have "hd (p @ [v]) = hd p" using is_path_nonempty[OF p(1)] by simp
    ultimately show ?thesis
      using p(3,4) by (intro exI[of _ "p @ [v]"]) simp
  qed
qed

text \<open>
  C2. In an acyclic graph every vertex is ranked. A vertex without entering edges has
  rank 0; any other vertex has rank one more than the largest rank among the sources of its
  entering edges, all of which are ranked. The rank is the length of the longest path that
  ends in the vertex: no path ending there has more edges, and one that starts in a vertex
  without entering edges has exactly that many.
\<close>

theorem rankVertices_longest_path:
  assumes "graph_inv g" and "acyclic (edge_rel g)" and "v \<in> set (getVertices g)"
  shows "\<exists>r. map_of (rankVertices g) v = Some r
     \<and> (getEdgesEntering g v = [] \<longrightarrow> r = 0)
     \<and> (\<forall>e \<in> set (getEdgesEntering g v). edge_from e \<in> dom (map_of (rankVertices g)))
     \<and> (getEdgesEntering g v \<noteq> [] \<longrightarrow>
          r = 1 + Max ((\<lambda>e. the (map_of (rankVertices g) (edge_from e))) ` set (getEdgesEntering g v)))
     \<and> (\<forall>p. is_path g p \<and> last p = v \<longrightarrow> int (length p) - 1 \<le> r)
     \<and> (\<exists>p. is_path g p \<and> last p = v \<and> getEdgesEntering g (hd p) = [] \<and> int (length p) - 1 = r)"
proof -
  let ?rk = "map_of (rankVertices g)"
  have rel: "entering_rel g = edge_rel g"
    using assms(1) by (rule graph_inv_rel)
  then have acyc: "acyclic (entering_rel g)"
    using assms(2) by simp
  note ok = rankVertices_ok(1)[OF acyc]
  from rankVertices_ok(2)[OF acyc] assms(3) obtain r where r: "?rk v = Some r"
    by (auto simp: getVertices_def)
  from ok r have srcs: "\<forall>e\<in>set (getEdgesEntering g v). edge_from e \<in> dom ?rk"
    and val: "r = maxParentRank_of g ?rk v + 1"
    unfolding rank_ok_def by blast+
  have a: "getEdgesEntering g v = [] \<longrightarrow> r = 0"
    using val by (simp add: maxParentRank_of_def)
  have nonneg: "\<forall>e\<in>set (getEdgesEntering g v). 0 \<le> the (?rk (edge_from e))"
    using srcs rank_ok_nonneg[OF ok] by fastforce
  have b: "getEdgesEntering g v \<noteq> [] \<longrightarrow>
      r = 1 + Max ((\<lambda>e. the (?rk (edge_from e))) ` set (getEdgesEntering g v))"
    using val maxParentRank_of_nonempty[OF _ nonneg] by simp
  have c: "\<forall>p. is_path g p \<and> last p = v \<longrightarrow> int (length p) - 1 \<le> r"
  proof (intro allI impI)
    fix p assume p: "is_path g p \<and> last p = v"
    with path_rank_le[OF ok rel, of p r] r obtain r0 where r0: "?rk (hd p) = Some r0"
      "r0 + int (length p) - 1 \<le> r" by auto
    from rank_ok_nonneg[OF ok r0(1)] r0(2) show "int (length p) - 1 \<le> r" by simp
  qed
  have d: "\<exists>p. is_path g p \<and> last p = v \<and> getEdgesEntering g (hd p) = [] \<and> int (length p) - 1 = r"
    using longest_path_exists[OF ok rel r refl] .
  from r a srcs b c d show ?thesis by blast
qed

lemma acyclic_increasing:
  assumes "\<forall>(a, b) \<in> r. a < (b::nat)"
  shows "acyclic r"
proof -
  have "r \<subseteq> less_than" using assms by auto
  then have "wf r" by (rule wf_subset[OF wf_less_than])
  then show ?thesis by (rule wf_acyclic)
qed

lemma diamond_inv: "graph_inv diamond"
  by (simp add: diamond_def graph_inv_addEdge graph_inv_empty)

lemma diamond_edges: "edges diamond = [\<lparr>ident = 0, edge_from = 0, edge_to = 1\<rparr>, \<lparr>ident = 1, edge_from = 0, edge_to = 2\<rparr>,
      \<lparr>ident = 2, edge_from = 1, edge_to = 3\<rparr>, \<lparr>ident = 3, edge_from = 2, edge_to = 3\<rparr>]"
  by (simp add: diamond_def addEdge_fields set_add_def emptyGraph_def)

lemma diamond_vertices: "vertices diamond = [0, 1, 2, 3]"
  by (simp add: diamond_def addEdge_fields set_add_def emptyGraph_def)

lemma diamond_acyclic: "acyclic (edge_rel diamond)"
  by (rule acyclic_increasing) (simp add: edge_rel_def diamond_edges)

lemma diamond_ranks: "rankVertices diamond = [(0, 0), (1, 1), (2, 1), (3, 2)]"
  by code_simp

theorem rankVertices_longest_path_witness:
  "graph_inv diamond \<and> acyclic (edge_rel diamond) \<and> 3 \<in> set (getVertices diamond)
   \<and> map_of (rankVertices diamond) 3 = Some 2
   \<and> (\<exists>p. is_path diamond p \<and> last p = 3 \<and> getEdgesEntering diamond (hd p) = []
          \<and> int (length p) - 1 = 2)"
  using rankVertices_longest_path[OF diamond_inv diamond_acyclic, of 3]
  by (simp add: diamond_inv diamond_acyclic diamond_vertices getVertices_def diamond_ranks)

theorem rank_increases_along_edges_witness:
  "graph_inv diamond \<and> acyclic (edge_rel diamond) \<and> \<lparr>ident = 2, edge_from = 1, edge_to = 3\<rparr> \<in> set (getEdges diamond)
   \<and> (\<exists>ru rv. map_of (rankVertices diamond) 1 = Some ru \<and> map_of (rankVertices diamond) 3 = Some rv \<and> ru + 1 \<le> rv)"
  using rank_increases_along_edges[OF diamond_inv diamond_acyclic, of "\<lparr>ident = 2, edge_from = 1, edge_to = 3\<rparr>"]
  by (simp add: diamond_inv diamond_acyclic diamond_edges getEdges_def)

section \<open>Sideways edges\<close>

lemma handleEdge_sideways:
  assumes "from \<noteq> to" and "map_of ranks from = Some r" and "map_of ranks to = Some r"
  shows "handleEdge ranks from to st = Inl (SidewaysEdge from to)"
  using assms by (subst handleEdge.simps) simp

lemma handleEdges_append:
  "handleEdges ranks (pre @ es) acc =
     (case handleEdges ranks pre acc of Inl err \<Rightarrow> Inl err | Inr acc' \<Rightarrow> handleEdges ranks es acc')"
proof (induction pre arbitrary: acc)
  case Nil
  then show ?case by (cases acc) simp
next
  case (Cons e pre)
  obtain m st where acc: "acc = (m, st)" by (cases acc)
  show ?case
    unfolding acc using Cons.IH
    by (simp split: sum.splits)
qed

lemma handleEdges_fails:
  assumes "e \<in> set es"
    and "\<And>st. \<exists>err. handleEdge ranks (edge_from e) (edge_to e) st = Inl err"
  shows "\<exists>err. handleEdges ranks es acc = Inl err"
  using assms(1)
proof (induction es arbitrary: acc)
  case Nil
  then show ?case by simp
next
  case (Cons a es)
  obtain m st where acc: "acc = (m, st)" by (cases acc)
  show ?case
  proof (cases "handleEdge ranks (edge_from a) (edge_to a) st")
    case (Inl err)
    then show ?thesis unfolding acc by simp
  next
    case (Inr res)
    with assms(2)[of st] have "a \<noteq> e" by auto
    with Cons.prems have "e \<in> set es" by auto
    from Cons.IH[OF this] Inr show ?thesis
      unfolding acc by simp
  qed
qed

text \<open>
  C4, as stated, fails. \<open>ranksToLevels\<close> stops at the first edge that cannot be placed:
  with ranks \<open>0 \<mapsto> 0, 1 \<mapsto> 0\<close> and the edges \<open>2 \<rightarrow> 0\<close>, \<open>0 \<rightarrow> 1\<close> the
  sideways edge \<open>0 \<rightarrow> 1\<close> is in the edge set, and the error is the missing rank of
  vertex \<open>2\<close>, not the sideways-edge error.
\<close>

theorem sideways_edge_counterexample:
  "\<lparr>ident = 1, edge_from = 0::nat, edge_to = 1\<rparr>
     \<in> set [\<lparr>ident = 0, edge_from = 2, edge_to = 0\<rparr>, \<lparr>ident = 1, edge_from = 0, edge_to = 1\<rparr>]
   \<and> map_of [(0::nat, 0::int), (1, 0)] 0 = Some 0
   \<and> map_of [(0::nat, 0::int), (1, 0)] 1 = Some 0
   \<and> ranksToLevels sortBy [(0::nat, 0), (1, 0)]
         [\<lparr>ident = 0, edge_from = 2, edge_to = 0\<rparr>, \<lparr>ident = 1, edge_from = 0, edge_to = 1\<rparr>]
       = Inl VertexWithNoRank
   \<and> ranksToLevels sortBy [(0::nat, 0), (1, 0)]
         [\<lparr>ident = 0, edge_from = 2, edge_to = 0\<rparr>, \<lparr>ident = 1, edge_from = 0, edge_to = 1\<rparr>]
       \<noteq> Inl (SidewaysEdge 0 1)"
  by code_simp

text \<open>
  C4, amended. An edge between two different vertices of the same rank is fatal.
  \<open>handleEdge\<close> fails on it, in every state, with the sideways-edge error that names both
  endpoints. \<open>ranksToLevels\<close> returns no level structure for an edge set that contains
  such an edge, and when the edges before it have been placed the error it returns is this
  one.
\<close>

theorem sideways_edge_fatal:
  assumes "edge_from e \<noteq> edge_to e"
    and "map_of ranks (edge_from e) = Some r"
    and "map_of ranks (edge_to e) = Some r"
  shows "handleEdge ranks (edge_from e) (edge_to e) st = Inl (SidewaysEdge (edge_from e) (edge_to e))
       \<and> (e \<in> set es \<longrightarrow> (\<exists>err. ranksToLevels sorter ranks es = Inl err))
       \<and> (handleEdges ranks pre ([], fold addRankedVertex ranks emptyLevelState) = Inr acc \<longrightarrow>
            ranksToLevels sorter ranks (pre @ e # post) = Inl (SidewaysEdge (edge_from e) (edge_to e)))"
proof (intro conjI impI)
  show sw: "handleEdge ranks (edge_from e) (edge_to e) st = Inl (SidewaysEdge (edge_from e) (edge_to e))" for st
    using assms by (rule handleEdge_sideways)
  {
    assume "e \<in> set es"
    then obtain err where "handleEdges ranks es ([], fold addRankedVertex ranks emptyLevelState) = Inl err"
      using handleEdges_fails[of e es ranks] sw by blast
    then show "\<exists>err. ranksToLevels sorter ranks es = Inl err"
      by (simp add: ranksToLevels_def)
  }
  {
    assume pre: "handleEdges ranks pre ([], fold addRankedVertex ranks emptyLevelState) = Inr acc"
    obtain m st' where acc: "acc = (m, st')" by (cases acc)
    have "handleEdges ranks (pre @ e # post) ([], fold addRankedVertex ranks emptyLevelState)
        = Inl (SidewaysEdge (edge_from e) (edge_to e))"
      unfolding handleEdges_append pre acc using sw[of st']
      by simp
    then show "ranksToLevels sorter ranks (pre @ e # post) = Inl (SidewaysEdge (edge_from e) (edge_to e))"
      by (simp add: ranksToLevels_def)
  }
qed

theorem sideways_edge_fatal_witness:
  "edge_from \<lparr>ident = 0, edge_from = 0::nat, edge_to = 1\<rparr> \<noteq> edge_to \<lparr>ident = 0, edge_from = 0::nat, edge_to = 1\<rparr>
   \<and> map_of [(0::nat, 0::int), (1, 0)] 0 = Some 0 \<and> map_of [(0::nat, 0::int), (1, 0)] 1 = Some 0
   \<and> handleEdges [(0::nat, 0), (1, 0)] [] ([], fold addRankedVertex [(0::nat, 0), (1, 0)] emptyLevelState)
       = Inr ([], fold addRankedVertex [(0::nat, 0), (1, 0)] emptyLevelState)
   \<and> ranksToLevels sortBy [(0::nat, 0), (1, 0)] [\<lparr>ident = 0, edge_from = 0, edge_to = 1\<rparr>] = Inl (SidewaysEdge 0 1)"
  using sideways_edge_fatal[where e = "\<lparr>ident = 0, edge_from = 0::nat, edge_to = 1\<rparr>"
      and ranks = "[(0, 0), (1, 0)]" and r = 0 and st = emptyLevelState and es = "[]" and pre = "[]"
      and acc = "([], fold addRankedVertex [(0::nat, 0), (1, 0)] emptyLevelState)" and post = "[]"
      and sorter = sortBy]
  by simp

section \<open>Chains built by level construction\<close>

lemma heap_extends_refl: "heap_extends h h"
  by (simp add: heap_extends_def)

lemma heap_extends_trans:
  assumes "heap_extends h1 h2" and "heap_extends h2 h3"
  shows "heap_extends h1 h3"
  unfolding heap_extends_def
proof (intro conjI allI impI)
  show "length h1 \<le> length h3"
    using assms by (simp add: heap_extends_def)
  fix n assume n: "n < length h1"
  then have n2: "n < length h2" using assms(1) by (simp add: heap_extends_def)
  from assms(1) n have a: "vertex (h2 ! n) = vertex (h1 ! n)"
    "set (parents (h1 ! n)) \<subseteq> set (parents (h2 ! n))"
    "set (children (h1 ! n)) \<subseteq> set (children (h2 ! n))"
    by (simp_all add: heap_extends_def)
  from assms(2) n2 have b: "vertex (h3 ! n) = vertex (h2 ! n)"
    "set (parents (h2 ! n)) \<subseteq> set (parents (h3 ! n))"
    "set (children (h2 ! n)) \<subseteq> set (children (h3 ! n))"
    by (simp_all add: heap_extends_def)
  show "vertex (h3 ! n) = vertex (h1 ! n)" using a b by simp
  show "set (parents (h1 ! n)) \<subseteq> set (parents (h3 ! n))" using a b by blast
  show "set (children (h1 ! n)) \<subseteq> set (children (h3 ! n))" using a b by blast
qed

lemma state_extends_refl: "state_extends st st"
  by (simp add: state_extends_def heap_extends_refl)

lemma state_extends_trans: "state_extends s1 s2 \<Longrightarrow> state_extends s2 s3 \<Longrightarrow> state_extends s1 s3"
  unfolding state_extends_def by (auto intro: heap_extends_trans)

lemma nth_update_total:
  "(h[n := x]) ! m = (if m = n \<and> n < length h then x else h ! m)"
  by (cases "n < length h") (auto simp: nth_list_update list_update_beyond)

lemma heap_extends_alloc: "heap_extends h (snd (alloc n h))"
  by (simp add: heap_extends_def alloc_def nth_append)

lemma heap_extends_push_child: "heap_extends h (push_child n c h)"
  by (auto simp: heap_extends_def push_child_def nth_update_total)

lemma heap_extends_push_parent: "heap_extends h (push_parent n p h)"
  by (auto simp: heap_extends_def push_parent_def nth_update_total)

lemma heap_extends_vertex: "heap_extends h h' \<Longrightarrow> n < length h \<Longrightarrow> vertex (h' ! n) = vertex (h ! n)"
  by (simp add: heap_extends_def)

lemma heap_extends_parents:
  "heap_extends h h' \<Longrightarrow> n < length h \<Longrightarrow> x \<in> set (parents (h ! n)) \<Longrightarrow> x \<in> set (parents (h' ! n))"
  unfolding heap_extends_def by blast

lemma heap_extends_children:
  "heap_extends h h' \<Longrightarrow> n < length h \<Longrightarrow> x \<in> set (children (h ! n)) \<Longrightarrow> x \<in> set (children (h' ! n))"
  unfolding heap_extends_def by blast

lemma heap_extends_length: "heap_extends h h' \<Longrightarrow> n < length h \<Longrightarrow> n < length h'"
  by (simp add: heap_extends_def)

lemma push_child_new:
  assumes "parent < length h"
  shows "push_child parent (length h) (h @ [n0]) ! length h = n0"
    and "children (push_child parent (length h) (h @ [n0]) ! parent) = children (h ! parent) @ [length h]"
    and "length (push_child parent (length h) (h @ [n0])) = Suc (length h)"
  using assms by (simp_all add: push_child_def nth_append)

lemma getOrElse_push_level:
  "getOrElse (push_level rank n m) r [] = (if r = rank then getOrElse m rank [] @ [n] else getOrElse m r [])"
  by (auto simp: getOrElse_def push_level_def getOrInsert_def update_conv' split: option.splits)

lemma level_row_push:
  "level_row (st\<lparr>heap := h, rankToLevel := push_level rank n (rankToLevel st)\<rparr>) r
     = (if r = rank then level_row st rank @ [n] else level_row st r)"
  by (simp add: level_row_def getOrElse_push_level)

lemma insertVirtual_spec:
  assumes "insertVirtual rank toRank parent chain st = (p', chain', st')"
    and "parent < length (heap st)"
  shows "\<exists>new. chain' = chain @ new \<and> length new = nat (toRank - rank) \<and> p' = last (parent # new)
           \<and> p' < length (heap st')
           \<and> virtual_chain (heap st') (level_row st') parent rank new
           \<and> state_extends st st'"
  using assms
proof (induction rank toRank parent chain st arbitrary: p' chain' st' rule: insertVirtual.induct)
  case (1 rank toRank parent chain st)
  show ?case
  proof (cases "rank < toRank")
    case False
    with "1.prems" show ?thesis
      by (subst (asm) insertVirtual.simps) (simp add: virtual_chain_def state_extends_refl)
  next
    case True
    let ?L = "length (heap st)"
    let ?h0 = "heap st @ [\<lparr>parents = [parent], children = [], vertex = None, index = 0\<rparr>]"
    let ?h1 = "push_child parent ?L ?h0"
    let ?st1 = "st\<lparr>heap := ?h1, rankToLevel := push_level rank ?L (rankToLevel st)\<rparr>"
    have run: "insertVirtual (rank + 1) toRank ?L (chain @ [?L]) ?st1 = (p', chain', st')"
      using "1.prems"(1) True by (subst (asm) insertVirtual.simps) (simp add: alloc_def)
    have len1: "length ?h1 = Suc ?L" by (simp add: push_child_def)
    have L1: "?L < length (heap ?st1)" by (simp add: push_child_def)
    have al: "(?L, ?h0) = alloc \<lparr>parents = [parent], children = [], vertex = None, index = 0\<rparr> (heap st)"
      by (simp add: alloc_def)
    from "1.IH"[OF True al run L1]
    obtain new where new: "chain' = (chain @ [?L]) @ new" "length new = nat (toRank - (rank + 1))"
      "p' = last (?L # new)" "p' < length (heap st')"
      "virtual_chain (heap st') (level_row st') ?L (rank + 1) new" "state_extends ?st1 st'"
      by (auto simp: alloc_def)
    have ext01: "heap_extends (heap st) ?h1"
      using heap_extends_alloc[of "heap st"] heap_extends_push_child[of ?h0 parent ?L]
      by (auto simp: alloc_def intro: heap_extends_trans)
    have ext1: "state_extends st ?st1"
      using ext01 by (auto simp: state_extends_def level_row_push)
    have ext: "state_extends st st'"
      using ext1 new(6) by (rule state_extends_trans)
    have hext: "heap_extends ?h1 (heap st')"
      using new(6) by (simp add: state_extends_def)
    have L': "?L < length (heap st')"
      using hext len1 by (simp add: heap_extends_def)
    have vL: "vertex (heap st' ! ?L) = None"
      using heap_extends_vertex[OF hext, of ?L] push_child_new[OF "1.prems"(2)] by simp
    have rowL: "?L \<in> set (level_row st' rank)"
    proof -
      have "?L \<in> set (level_row ?st1 rank)" by (simp add: level_row_push)
      with new(6) show ?thesis unfolding state_extends_def by blast
    qed
    have parL: "parent \<in> set (parents (heap st' ! ?L))"
      using heap_extends_parents[OF hext, of ?L parent] push_child_new[OF "1.prems"(2)] by simp
    have chL: "?L \<in> set (children (heap st' ! parent))"
      using heap_extends_children[OF hext, of parent ?L] push_child_new[OF "1.prems"(2)] "1.prems"(2)
      by simp
    have vc: "virtual_chain (heap st') (level_row st') parent rank (?L # new)"
      unfolding virtual_chain_def
    proof (intro allI impI)
      fix i assume i: "i < length (?L # new)"
      show "(?L # new) ! i < length (heap st') \<and> vertex (heap st' ! ((?L # new) ! i)) = None \<and>
            (?L # new) ! i \<in> set (level_row st' (rank + int i)) \<and>
            (parent # ?L # new) ! i \<in> set (parents (heap st' ! ((?L # new) ! i))) \<and>
            (?L # new) ! i \<in> set (children (heap st' ! ((parent # ?L # new) ! i)))"
      proof (cases i)
        case 0
        with L' vL rowL parL chL show ?thesis by simp
      next
        case (Suc j)
        with i have j: "j < length new" by simp
        have "rank + 1 + int j = rank + int (Suc j)" by simp
        with new(5) j Suc show ?thesis
          unfolding virtual_chain_def by (metis nth_Cons_Suc)
      qed
    qed
    have "length (?L # new) = nat (toRank - rank)"
      using new(2) True by simp
    with new(1,3,4) vc ext show ?thesis
      by (intro exI[of _ "?L # new"]) simp
  qed
qed

lemma node_inv_extends: "node_inv st \<Longrightarrow> state_extends st st' \<Longrightarrow> node_inv st'"
  unfolding node_inv_def state_extends_def heap_extends_def
  by (metis less_le_trans)

lemma handleEdge_self:
  assumes "node_inv st" and "handleEdge ranks v v st = Inr (chain, st')"
  shows "st' = st \<and> map_of (vertexToLevelNode st) v = Some (hd chain) \<and> chain = [hd chain]
       \<and> forward_chain (heap st') (level_row st') v v r r chain"
proof -
  from assms(2) obtain n where n: "map_of (vertexToLevelNode st) v = Some n" "chain = [n]" "st' = st"
    by (subst (asm) handleEdge.simps) (auto split: option.splits)
  with assms(1) have "n < length (heap st)" "vertex (heap st ! n) = Some v"
    unfolding node_inv_def by blast+
  with n show ?thesis
    by (simp add: forward_chain_def)
qed

lemma handleEdge_forward:
  assumes inv: "node_inv st"
    and ranks: "map_of ranks from = Some fr" "map_of ranks to = Some tr" "fr < tr"
    and ne: "from \<noteq> to"
    and run: "handleEdge ranks from to st = Inr (chain, st')"
  shows "forward_chain (heap st') (level_row st') from to fr tr chain \<and> state_extends st st'
       \<and> map_of (vertexToLevelNode st) from = Some (hd chain)
       \<and> map_of (vertexToLevelNode st) to = Some (last chain)"
proof -
  from run ranks ne obtain fromNode toNode where
    nodes: "map_of (vertexToLevelNode st) from = Some fromNode" "map_of (vertexToLevelNode st) to = Some toNode"
    by (subst (asm) handleEdge.simps) (auto split: option.splits)
  obtain p c1 st1 where iv: "insertVirtual (fr + 1) tr fromNode [fromNode] st = (p, c1, st1)"
    by (metis prod.exhaust)
  let ?h2 = "push_child p toNode (push_parent toNode p (heap st1))"
  from run ranks ne nodes iv have res: "chain = c1 @ [toNode]" "st' = st1\<lparr>heap := ?h2\<rparr>"
    by (subst (asm) handleEdge.simps, simp)+
  from inv nodes have fN: "fromNode < length (heap st)" "vertex (heap st ! fromNode) = Some from"
    and tN: "toNode < length (heap st)" "vertex (heap st ! toNode) = Some to"
    unfolding node_inv_def by blast+
  from insertVirtual_spec[OF iv fN(1)] obtain new where
    new: "c1 = [fromNode] @ new" "length new = nat (tr - (fr + 1))" "p = last (fromNode # new)"
      "p < length (heap st1)" "virtual_chain (heap st1) (level_row st1) fromNode (fr + 1) new"
      "state_extends st st1"
    by blast
  have hext1: "heap_extends (heap st) (heap st1)"
    using new(6) by (simp add: state_extends_def)
  have hext2: "heap_extends (heap st1) ?h2"
    using heap_extends_push_parent heap_extends_push_child by (blast intro: heap_extends_trans)
  have hext: "heap_extends (heap st) ?h2"
    using hext1 hext2 by (rule heap_extends_trans)
  have rows': "level_row st' = level_row st1"
    by (simp add: res(2) level_row_def fun_eq_iff)
  have ext: "state_extends st st'"
    using new(6) hext by (simp add: state_extends_def res(2) rows'[unfolded res(2)])
  have len2: "length ?h2 = length (heap st1)"
    by (simp add: push_child_def push_parent_def)
  have tN1: "toNode < length (heap st1)"
    using heap_extends_length[OF hext1 tN(1)] .
  have chain: "chain = fromNode # new @ [toNode]"
    using res(1) new(1) by simp
  have link_last: "toNode \<in> set (children (?h2 ! p))" "p \<in> set (parents (?h2 ! toNode))"
    using new(4) tN1 by (auto simp: push_child_def push_parent_def nth_update_total)
  have fc: "forward_chain ?h2 (level_row st1) from to fr tr chain"
    unfolding forward_chain_def
  proof (intro conjI allI impI ballI)
    show "fr \<le> tr" using ranks(3) by simp
    show "length chain = nat (tr - fr + 1)"
      using chain new(2) ranks(3) by simp
    show "vertex (?h2 ! hd chain) = Some from"
      using heap_extends_vertex[OF hext fN(1)] fN(2) chain by simp
    show "vertex (?h2 ! last chain) = Some to"
      using heap_extends_vertex[OF hext tN(1)] tN(2) chain by simp
  next
    fix n assume "n \<in> set chain"
    then consider "n = fromNode" | "n = toNode" | "n \<in> set new"
      using chain by auto
    then show "n < length ?h2"
    proof cases
      case 1
      then show ?thesis using heap_extends_length[OF hext fN(1)] by simp
    next
      case 2
      then show ?thesis using heap_extends_length[OF hext tN(1)] by simp
    next
      case 3
      then obtain i where "i < length new" "new ! i = n" by (auto simp: in_set_conv_nth)
      with new(5) have "n < length (heap st1)" unfolding virtual_chain_def by blast
      then show ?thesis using len2 by simp
    qed
  next
    fix i assume i: "0 < i \<and> i + 1 < length chain"
    then obtain j where j: "i = Suc j" "j < length new"
      using chain by (cases i) auto
    then have ci: "chain ! i = new ! j"
      using chain by (simp add: nth_append)
    from new(5) j(2) have v: "new ! j < length (heap st1)" "vertex (heap st1 ! (new ! j)) = None"
      "new ! j \<in> set (level_row st1 (fr + 1 + int j))"
      unfolding virtual_chain_def by blast+
    have "fr + 1 + int j = fr + int i" using j(1) by simp
    with v heap_extends_vertex[OF hext2 v(1)] ci
    show "vertex (?h2 ! (chain ! i)) = None" and "chain ! i \<in> set (level_row st1 (fr + int i))"
      by simp_all
  next
    fix i assume i: "i + 1 < length chain"
    show "chain ! (i + 1) \<in> set (children (?h2 ! (chain ! i)))"
      and "chain ! i \<in> set (parents (?h2 ! (chain ! (i + 1))))"
    proof -
      have both: "chain ! (i + 1) \<in> set (children (?h2 ! (chain ! i))) \<and>
                  chain ! i \<in> set (parents (?h2 ! (chain ! (i + 1))))"
      proof (cases "i < length new")
        case True
        from new(5) True have v: "new ! i < length (heap st1)"
          "(fromNode # new) ! i \<in> set (parents (heap st1 ! (new ! i)))"
          "new ! i \<in> set (children (heap st1 ! ((fromNode # new) ! i)))"
          unfolding virtual_chain_def by blast+
        have ci: "chain ! i = (fromNode # new) ! i" "chain ! (i + 1) = new ! i"
          using chain True by (simp_all add: nth_append nth_Cons split: nat.splits)
        have pi: "(fromNode # new) ! i < length (heap st1)"
        proof (cases i)
          case 0
          then show ?thesis using heap_extends_length[OF hext1 fN(1)] by simp
        next
          case (Suc k)
          with True have "k < length new" by simp
          with new(5) Suc show ?thesis unfolding virtual_chain_def by simp
        qed
        show ?thesis
          unfolding ci
          using heap_extends_parents[OF hext2 v(1) v(2)] heap_extends_children[OF hext2 pi v(3)]
          by simp
      next
        case False
        with i chain have il: "i = length new" by simp
        then have "chain ! i = last (fromNode # new)" "chain ! (i + 1) = toNode"
          using chain by (simp_all add: nth_append nth_Cons last_conv_nth split: nat.splits)
        with link_last new(3) show ?thesis by simp
      qed
      from both show "chain ! (i + 1) \<in> set (children (?h2 ! (chain ! i)))"
        and "chain ! i \<in> set (parents (?h2 ! (chain ! (i + 1))))" by simp_all
    qed
  qed
  have "forward_chain (heap st') (level_row st') from to fr tr chain"
    using fc rows' by (simp add: res(2))
  with ext nodes chain show ?thesis by simp
qed

lemma handleEdge_back:
  assumes "map_of ranks from = Some fr" and "map_of ranks to = Some tr" and "tr < fr"
  shows "handleEdge ranks from to st =
           (case handleEdge ranks to from st of
              Inl err \<Rightarrow> Inl err
            | Inr (nodes, st') \<Rightarrow> Inr (rev nodes, st'))"
proof -
  from assms have "from \<noteq> to" by auto
  with assms show ?thesis
    by (subst handleEdge.simps) simp
qed

lemma forward_chain_mono:
  assumes fc: "forward_chain h row u v ru rv chain"
    and ext: "heap_extends h h'"
    and rows: "\<And>r. ru < r \<Longrightarrow> r < rv \<Longrightarrow> set (row r) \<subseteq> set (row' r)"
  shows "forward_chain h' row' u v ru rv chain"
proof -
  from fc have len: "length chain = nat (rv - ru + 1)" and le: "ru \<le> rv"
    and valid: "\<forall>n \<in> set chain. n < length h"
    by (simp_all add: forward_chain_def)
  from len le have ne: "chain \<noteq> []" by auto
  then have hd: "hd chain < length h" and last: "last chain < length h"
    using valid by simp_all
  have nth: "chain ! i < length h" if "i < length chain" for i
    using valid that by simp
  show ?thesis
    unfolding forward_chain_def
  proof (intro conjI allI impI ballI)
    show "ru \<le> rv" by (rule le)
    show "length chain = nat (rv - ru + 1)" by (rule len)
    show "vertex (h' ! hd chain) = Some u"
      using heap_extends_vertex[OF ext hd] fc by (simp add: forward_chain_def)
    show "vertex (h' ! last chain) = Some v"
      using heap_extends_vertex[OF ext last] fc by (simp add: forward_chain_def)
  next
    fix n assume "n \<in> set chain"
    with valid show "n < length h'" using heap_extends_length[OF ext] by blast
  next
    fix i assume i: "0 < i \<and> i + 1 < length chain"
    with fc have "vertex (h ! (chain ! i)) = None" "chain ! i \<in> set (row (ru + int i))"
      unfolding forward_chain_def by blast+
    moreover have "ru < ru + int i" "ru + int i < rv"
      using i len by auto
    ultimately show "vertex (h' ! (chain ! i)) = None" and "chain ! i \<in> set (row' (ru + int i))"
      using heap_extends_vertex[OF ext nth[of i]] i rows[of "ru + int i"] by auto
  next
    fix i assume i: "i + 1 < length chain"
    with fc have "chain ! (i + 1) \<in> set (children (h ! (chain ! i)))"
      "chain ! i \<in> set (parents (h ! (chain ! (i + 1))))"
      unfolding forward_chain_def by blast+
    with heap_extends_children[OF ext nth[of i]] heap_extends_parents[OF ext nth[of "i + 1"]] i
    show "chain ! (i + 1) \<in> set (children (h' ! (chain ! i)))"
      and "chain ! i \<in> set (parents (h' ! (chain ! (i + 1))))"
      by simp_all
  qed
qed

lemma edge_chain_mono:
  assumes "edge_chain ranks h row e chain" and "heap_extends h h'"
    and "\<And>r ru rv. map_of ranks (edge_from e) = Some ru \<Longrightarrow> map_of ranks (edge_to e) = Some rv \<Longrightarrow>
           min ru rv < r \<Longrightarrow> r < max ru rv \<Longrightarrow> set (row r) \<subseteq> set (row' r)"
  shows "edge_chain ranks h' row' e chain"
  unfolding edge_chain_def
proof (intro allI impI)
  fix ru rv
  assume r: "map_of ranks (edge_from e) = Some ru \<and> map_of ranks (edge_to e) = Some rv"
  show "if ru \<le> rv then forward_chain h' row' (edge_from e) (edge_to e) ru rv chain
        else forward_chain h' row' (edge_to e) (edge_from e) rv ru (rev chain)"
  proof (cases "ru \<le> rv")
    case True
    with assms(1) r have "forward_chain h row (edge_from e) (edge_to e) ru rv chain"
      unfolding edge_chain_def by metis
    from forward_chain_mono[OF this assms(2), of row'] assms(3)[of ru rv] r True show ?thesis by simp
  next
    case False
    with assms(1) r have "forward_chain h row (edge_to e) (edge_from e) rv ru (rev chain)"
      unfolding edge_chain_def by metis
    from forward_chain_mono[OF this assms(2), of row'] assms(3)[of ru rv] r False show ?thesis by simp
  qed
qed

lemma handleEdge_spec:
  assumes inv: "node_inv st" and run: "handleEdge ranks from to st = Inr (chain, st')"
  shows "state_extends st st'"
    and "map_of ranks from = Some fr \<Longrightarrow> map_of ranks to = Some tr \<Longrightarrow> fr \<le> tr \<Longrightarrow>
         forward_chain (heap st') (level_row st') from to fr tr chain
         \<and> map_of (vertexToLevelNode st) from = Some (hd chain)
         \<and> map_of (vertexToLevelNode st) to = Some (last chain)"
    and "map_of ranks from = Some fr \<Longrightarrow> map_of ranks to = Some tr \<Longrightarrow> tr < fr \<Longrightarrow>
         forward_chain (heap st') (level_row st') to from tr fr (rev chain)
         \<and> map_of (vertexToLevelNode st) from = Some (hd chain)
         \<and> map_of (vertexToLevelNode st) to = Some (last chain)"
proof -
  have fwd: "forward_chain (heap st') (level_row st') from to fr tr chain
         \<and> map_of (vertexToLevelNode st) from = Some (hd chain)
         \<and> map_of (vertexToLevelNode st) to = Some (last chain)"
    if r: "map_of ranks from = Some fr" "map_of ranks to = Some tr" "fr \<le> tr" for fr tr
  proof (cases "from = to")
    case True
    with r have eq: "tr = fr" by simp
    from handleEdge_self[OF inv run[unfolded True[symmetric]], of fr] True eq
    show ?thesis by (metis last.simps)
  next
    case False
    with r run have "fr < tr"
      by (subst (asm) handleEdge.simps) (auto split: if_splits)
    from handleEdge_forward[OF inv r(1,2) this False run] show ?thesis by simp
  qed
  have bwd: "forward_chain (heap st') (level_row st') to from tr fr (rev chain)
         \<and> map_of (vertexToLevelNode st) from = Some (hd chain)
         \<and> map_of (vertexToLevelNode st) to = Some (last chain)
         \<and> state_extends st st'"
    if r: "map_of ranks from = Some fr" "map_of ranks to = Some tr" "tr < fr" for fr tr
  proof -
    from r have ne: "to \<noteq> from" by auto
    from run handleEdge_back[OF r, of st] obtain nodes where
      nodes: "handleEdge ranks to from st = Inr (nodes, st')" "chain = rev nodes"
      by (auto split: sum.splits prod.splits)
    from handleEdge_forward[OF inv r(2,1,3) ne nodes(1)]
    have fc: "forward_chain (heap st') (level_row st') to from tr fr nodes"
      and ext: "state_extends st st'"
      and hd: "map_of (vertexToLevelNode st) to = Some (hd nodes)"
      and last: "map_of (vertexToLevelNode st) from = Some (last nodes)"
      by simp_all
    from fc r(3) have "nodes \<noteq> []" by (auto simp: forward_chain_def)
    with fc ext hd last nodes(2) show ?thesis
      by (simp add: hd_rev last_rev)
  qed
  show "map_of ranks from = Some fr \<Longrightarrow> map_of ranks to = Some tr \<Longrightarrow> fr \<le> tr \<Longrightarrow>
         forward_chain (heap st') (level_row st') from to fr tr chain
         \<and> map_of (vertexToLevelNode st) from = Some (hd chain)
         \<and> map_of (vertexToLevelNode st) to = Some (last chain)"
    using fwd by blast
  show "map_of ranks from = Some fr \<Longrightarrow> map_of ranks to = Some tr \<Longrightarrow> tr < fr \<Longrightarrow>
         forward_chain (heap st') (level_row st') to from tr fr (rev chain)
         \<and> map_of (vertexToLevelNode st) from = Some (hd chain)
         \<and> map_of (vertexToLevelNode st) to = Some (last chain)"
    using bwd by blast
  show "state_extends st st'"
  proof (cases "from = to")
    case True
    from handleEdge_self[OF inv run[unfolded True[symmetric]], of 0] show ?thesis
      by (simp add: state_extends_refl)
  next
    case False
    with run obtain fr tr where r: "map_of ranks from = Some fr" "map_of ranks to = Some tr" "fr \<noteq> tr"
      by (subst (asm) handleEdge.simps) (auto split: option.splits if_splits)
    show ?thesis
    proof (cases "fr < tr")
      case True
      from handleEdge_forward[OF inv r(1,2) True False run] show ?thesis by simp
    next
      case False
      with r(3) have "tr < fr" by simp
      from bwd[OF r(1,2) this] show ?thesis by simp
    qed
  qed
qed

section \<open>Frame of the crossing-minimization passes\<close>

lemma erase_index_update:
  "erase_index (h[k := (h ! k)\<lparr>index := i\<rparr>]) = erase_index h"
proof (cases "k < length h")
  case True
  have "erase_index (h[k := (h ! k)\<lparr>index := i\<rparr>]) = (erase_index h)[k := (erase_index h) ! k]"
    using True by (simp add: erase_index_def map_update)
  then show ?thesis by simp
next
  case False
  then show ?thesis by (simp add: list_update_beyond)
qed

lemma erase_index_reindexLevel_from:
  "erase_index (reindexLevel_from i level h) = erase_index h"
proof (induction i level h rule: reindexLevel_from.induct)
  case (1 i level h)
  show ?case
  proof (cases "i < length level")
    case True
    with "1.IH" show ?thesis
      by (subst reindexLevel_from.simps) (simp add: erase_index_update)
  next
    case False
    then show ?thesis by (subst reindexLevel_from.simps) simp
  qed
qed

lemma erase_index_reindexLevel: "erase_index (reindexLevel level h) = erase_index h"
  by (simp add: reindexLevel_def erase_index_reindexLevel_from)

lemma mset_refill:
  "length ss = length (filter (\<lambda>t. key t \<noteq> None) ts) \<Longrightarrow>
   mset (refill key ts ss) = mset (filter (\<lambda>t. key t = None) ts) + mset ss"
proof (induction ts arbitrary: ss)
  case Nil
  then show ?case by simp
next
  case (Cons t ts)
  show ?case
  proof (cases "key t = None")
    case True
    with Cons show ?thesis by simp
  next
    case False
    with Cons.prems obtain s ss' where ss: "ss = s # ss'" "length ss' = length (filter (\<lambda>t. key t \<noteq> None) ts)"
      by (cases ss) auto
    from False obtain y where y: "key t = Some y" by auto
    have "refill key (t # ts) ss = s # refill key ts ss'"
      using y ss(1) by simp
    with Cons.IH[OF ss(2)] y ss(1) show ?thesis by simp
  qed
qed

lemma mset_sortBy: "mset (sortBy key ts) = mset ts"
proof -
  let ?ss = "sort_key (\<lambda>t. the (key t)) (filter (\<lambda>t. key t \<noteq> None) ts)"
  have "length ?ss = length (filter (\<lambda>t. key t \<noteq> None) ts)" by simp
  from mset_refill[OF this]
  have "mset (sortBy key ts) = mset (filter (\<lambda>t. key t = None) ts) + mset (filter (\<lambda>t. key t \<noteq> None) ts)"
    by (simp add: sortBy_def)
  also have "\<dots> = mset ts"
    by (induction ts) auto
  finally show ?thesis .
qed

lemma map_mset_update:
  "mset row = mset (lvls ! i) \<Longrightarrow> map mset (lvls[i := row]) = map mset lvls"
proof (cases "i < length lvls")
  case True
  assume "mset row = mset (lvls ! i)"
  then have "map mset (lvls[i := row]) = (map mset lvls)[i := (map mset lvls) ! i]"
    using True by (simp add: map_update)
  then show ?thesis by (simp only: list_update_id)
next
  case False
  then show ?thesis by (simp add: list_update_beyond)
qed

lemma permuting_sortBy: "permuting sortBy"
  by (simp add: permuting_def mset_sortBy)

lemma sortLevel_frame:
  assumes "permuting sorter"
  shows "map mset (fst (sortLevel sorter weight i acc)) = map mset (fst acc)"
    and "erase_index (snd (sortLevel sorter weight i acc)) = erase_index (snd acc)"
  using assms
  by (simp_all add: sortLevel_def Let_def map_mset_update permuting_def erase_index_reindexLevel)

lemma sweepDown_frame:
  "permuting sorter \<Longrightarrow>
   map mset (fst (sweepDown sorter i acc)) = map mset (fst acc) \<and>
   erase_index (snd (sweepDown sorter i acc)) = erase_index (snd acc)"
proof (induction sorter i acc rule: sweepDown.induct)
  case (1 sorter i lvls h)
  show ?case
  proof (cases "i < length lvls")
    case True
    with "1.IH" "1.prems" show ?thesis
      by (subst (1 2) sweepDown.simps) (simp add: sortLevel_frame)
  next
    case False
    then show ?thesis by (subst (1 2) sweepDown.simps) simp
  qed
qed

lemma sweepUp_frame:
  "permuting sorter \<Longrightarrow>
   map mset (fst (sweepUp sorter i acc)) = map mset (fst acc) \<and>
   erase_index (snd (sweepUp sorter i acc)) = erase_index (snd acc)"
proof (induction i arbitrary: acc)
  case 0
  then show ?case by (cases acc) simp
next
  case (Suc i)
  obtain lvls h where acc: "acc = (lvls, h)" by (cases acc)
  from Suc.IH[OF Suc.prems, of "sortLevel sorter levelNodeChildWeight i (lvls, h)"] Suc.prems
  show ?case
    unfolding acc by (simp add: sortLevel_frame)
qed

lemma crossingPasses_frame:
  "permuting sorter \<Longrightarrow>
   map mset (fst (crossingPasses sorter pass acc)) = map mset (fst acc) \<and>
   erase_index (snd (crossingPasses sorter pass acc)) = erase_index (snd acc)"
proof (induction sorter pass acc rule: crossingPasses.induct)
  case (1 sorter pass lvls h)
  show ?case
  proof (cases "pass < 4")
    case True
    with "1.IH" "1.prems" sweepDown_frame[OF "1.prems", of 0 "(lvls, h)"]
      sweepUp_frame[OF "1.prems", of "length (fst (sweepDown sorter 0 (lvls, h)))" "sweepDown sorter 0 (lvls, h)"]
    show ?thesis
      by (subst (1 2) crossingPasses.simps) (simp add: sweepUpAll_def)
  next
    case False
    then show ?thesis by (subst (1 2) crossingPasses.simps) simp
  qed
qed

text \<open>
  C7. Whatever sort the passes use, as long as it permutes its argument, the four passes
  change the order inside the rows and the index fields, and nothing else: afterwards there
  are as many rows, every row holds the same nodes as before (as a multiset, hence the same
  length and the same set), and the heap differs from the old one in index fields only.
\<close>

theorem crossing_passes_keep_rows:
  assumes "permuting sorter"
  shows "map mset (fst (crossingPasses sorter 0 (lvls, h))) = map mset lvls
   \<and> length (fst (crossingPasses sorter 0 (lvls, h))) = length lvls
   \<and> map length (fst (crossingPasses sorter 0 (lvls, h))) = map length lvls
   \<and> map set (fst (crossingPasses sorter 0 (lvls, h))) = map set lvls
   \<and> erase_index (snd (crossingPasses sorter 0 (lvls, h))) = erase_index h"
proof -
  obtain lvls' h' where r: "crossingPasses sorter 0 (lvls, h) = (lvls', h')" by (metis prod.exhaust)
  from crossingPasses_frame[OF assms, of 0 "(lvls, h)"] r
  have m: "map mset lvls' = map mset lvls" and e: "erase_index h' = erase_index h"
    by simp_all
  from m have "map (size \<circ> mset) lvls' = map (size \<circ> mset) lvls"
    and "map (set_mset \<circ> mset) lvls' = map (set_mset \<circ> mset) lvls"
    by (metis map_map)+
  then have "map length lvls' = map length lvls" and "map set lvls' = map set lvls"
    by (simp_all add: comp_def)
  with m e r show ?thesis
    by (metis fst_conv snd_conv length_map)
qed

section \<open>Chains in the result of level construction\<close>

lemma chains_ok_extends:
  assumes "chains_ok ranks st m" and "state_extends st st'"
  shows "chains_ok ranks st' m"
  unfolding chains_ok_def
proof (intro allI impI)
  fix e chain assume "map_of m e = Some chain"
  with assms(1) have "edge_chain ranks (heap st) (level_row st) e chain"
    unfolding chains_ok_def by blast
  moreover from assms(2) have "heap_extends (heap st) (heap st')"
    and "\<And>r. set (level_row st r) \<subseteq> set (level_row st' r)"
    unfolding state_extends_def by blast+
  ultimately show "edge_chain ranks (heap st') (level_row st') e chain"
    by (rule edge_chain_mono)
qed

lemma handleEdge_edge_chain:
  assumes "node_inv st" and "handleEdge ranks (edge_from e) (edge_to e) st = Inr (chain, st')"
  shows "edge_chain ranks (heap st') (level_row st') e chain"
  unfolding edge_chain_def
proof (intro allI impI)
  fix ru rv
  assume r: "map_of ranks (edge_from e) = Some ru \<and> map_of ranks (edge_to e) = Some rv"
  show "if ru \<le> rv then forward_chain (heap st') (level_row st') (edge_from e) (edge_to e) ru rv chain
        else forward_chain (heap st') (level_row st') (edge_to e) (edge_from e) rv ru (rev chain)"
  proof (cases "ru \<le> rv")
    case True
    with handleEdge_spec(2)[OF assms, of ru rv] r show ?thesis by simp
  next
    case False
    with handleEdge_spec(3)[OF assms, of ru rv] r show ?thesis by simp
  qed
qed

lemma handleEdges_spec:
  assumes "node_inv st" and "chains_ok ranks st m" and "handleEdges ranks es (m, st) = Inr (m', st')"
  shows "state_extends st st' \<and> chains_ok ranks st' m' \<and> set es \<subseteq> dom (map_of m')
       \<and> dom (map_of m) \<subseteq> dom (map_of m')"
  using assms
proof (induction es arbitrary: m st)
  case Nil
  then show ?case by (simp add: state_extends_refl)
next
  case (Cons e es)
  from Cons.prems(3) obtain nodes st1 where
    one: "handleEdge ranks (edge_from e) (edge_to e) st = Inr (nodes, st1)"
    and rest: "handleEdges ranks es (AList.update e nodes m, st1) = Inr (m', st')"
    by (auto simp: recordChain_def split: sum.splits)
  have ext1: "state_extends st st1"
    using handleEdge_spec(1)[OF Cons.prems(1) one] .
  have inv1: "node_inv st1"
    using Cons.prems(1) ext1 by (rule node_inv_extends)
  have ec: "edge_chain ranks (heap st1) (level_row st1) e nodes"
    using handleEdge_edge_chain[OF Cons.prems(1) one] .
  have ok1: "chains_ok ranks st1 (AList.update e nodes m)"
    using chains_ok_extends[OF Cons.prems(2) ext1] ec
    by (auto simp: chains_ok_def update_conv')
  from Cons.IH[OF inv1 ok1 rest]
  have IH: "state_extends st1 st'" "chains_ok ranks st' m'" "set es \<subseteq> dom (map_of m')"
    "dom (map_of (AList.update e nodes m)) \<subseteq> dom (map_of m')"
    by blast+
  from IH(4) have "e \<in> dom (map_of m')" and "dom (map_of m) \<subseteq> dom (map_of m')"
    by (auto simp: update_conv')
  with IH ext1 show ?case
    by (auto intro: state_extends_trans)
qed

lemma node_inv_empty: "node_inv emptyLevelState"
  by (simp add: node_inv_def emptyLevelState_def)

lemma node_inv_addRankedVertex:
  assumes "node_inv st"
  shows "node_inv (addRankedVertex vr st)"
proof -
  obtain v rank where vr: "vr = (v, rank)" by (cases vr)
  have old: "n < length (heap st) \<and> vertex (heap st ! n) = Some w"
    if "map_of (vertexToLevelNode st) w = Some n" for w n
    using assms that unfolding node_inv_def by blast
  show ?thesis
    unfolding node_inv_def
  proof (intro allI impI)
    fix w n assume a: "map_of (vertexToLevelNode (addRankedVertex vr st)) w = Some n"
    show "n < length (heap (addRankedVertex vr st)) \<and> vertex (heap (addRankedVertex vr st) ! n) = Some w"
    proof (cases "w = v")
      case True
      with a vr have "n = length (heap st)"
        by (simp add: addRankedVertex_def alloc_def update_conv')
      with True vr show ?thesis
        by (simp add: addRankedVertex_def alloc_def)
    next
      case False
      with a vr have "map_of (vertexToLevelNode st) w = Some n"
        by (simp add: addRankedVertex_def alloc_def update_conv')
      from old[OF this] vr show ?thesis
        by (simp add: addRankedVertex_def alloc_def nth_append)
    qed
  qed
qed

lemma node_inv_fold: "node_inv st \<Longrightarrow> node_inv (fold addRankedVertex ranks st)"
  by (induction ranks arbitrary: st) (simp_all add: node_inv_addRankedVertex)

lemma rank_bounds_addRankedVertex:
  "minRank (addRankedVertex vr st) = min (minRank st) (snd vr)"
  "maxRank (addRankedVertex vr st) = max (maxRank st) (snd vr)"
  by (cases vr; simp add: addRankedVertex_def alloc_def)+

lemma rank_bounds_fold:
  "minRank (fold addRankedVertex ranks st) \<le> minRank st"
  "maxRank st \<le> maxRank (fold addRankedVertex ranks st)"
  "(v, r) \<in> set ranks \<Longrightarrow> minRank (fold addRankedVertex ranks st) \<le> r"
  "(v, r) \<in> set ranks \<Longrightarrow> r \<le> maxRank (fold addRankedVertex ranks st)"
proof (induction ranks arbitrary: st)
  case Nil
  {
    case 1 show ?case by simp
  next
    case 2 show ?case by simp
  next
    case 3 then show ?case by simp
  next
    case 4 then show ?case by simp
  }
next
  case (Cons vr ranks)
  {
    case 1
    from Cons.IH(1)[of "addRankedVertex vr st"] show ?case
      by (simp add: rank_bounds_addRankedVertex)
  next
    case 2
    from Cons.IH(2)[of "addRankedVertex vr st"] show ?case
      by (simp add: rank_bounds_addRankedVertex)
  next
    case 3
    then consider "vr = (v, r)" | "(v, r) \<in> set ranks" by auto
    then show ?case
    proof cases
      case 1
      with Cons.IH(1)[of "addRankedVertex vr st"] show ?thesis
        by (simp add: rank_bounds_addRankedVertex)
    next
      case 2
      from Cons.IH(3)[OF this] show ?thesis by simp
    qed
  next
    case 4
    then consider "vr = (v, r)" | "(v, r) \<in> set ranks" by auto
    then show ?case
    proof cases
      case 1
      with Cons.IH(2)[of "addRankedVertex vr st"] show ?thesis
        by (simp add: rank_bounds_addRankedVertex)
    next
      case 2
      from Cons.IH(4)[OF this] show ?thesis by simp
    qed
  }
qed

lemma buildLevels_spec:
  "buildLevels rank maxR r2l (lvls, h) = (lvls', h') \<Longrightarrow>
   lvls' = lvls @ map (\<lambda>r. getOrElse r2l r []) [rank..maxR] \<and> erase_index h' = erase_index h"
proof (induction rank maxR r2l "(lvls, h)" arbitrary: lvls h rule: buildLevels.induct)
  case (1 rank maxR r2l lvls h)
  show ?case
  proof (cases "rank \<le> maxR")
    case True
    let ?level = "getOrElse r2l rank []"
    from "1.prems" True have "buildLevels (rank + 1) maxR r2l (lvls @ [?level], reindexLevel ?level h) = (lvls', h')"
      by (subst (asm) buildLevels.simps) (simp add: appendLevel_def)
    from "1.hyps"[OF True _ this] True show ?thesis
      by (simp add: appendLevel_def erase_index_reindexLevel upto_rec1[of rank maxR])
  next
    case False
    with "1.prems" show ?thesis by (subst (asm) buildLevels.simps) simp
  qed
qed

lemma erase_index_nth:
  assumes "erase_index h' = erase_index h" and "n < length h"
  shows "vertex (h' ! n) = vertex (h ! n)" and "parents (h' ! n) = parents (h ! n)"
    and "children (h' ! n) = children (h ! n)"
proof -
  from assms(1) have len: "length h' = length h"
    unfolding erase_index_def by (metis length_map)
  from assms have "erase_index h' ! n = erase_index h ! n" by simp
  with assms(2) len have eq: "(h' ! n)\<lparr>index := 0\<rparr> = (h ! n)\<lparr>index := 0\<rparr>"
    by (simp add: erase_index_def)
  have "vertex ((h' ! n)\<lparr>index := 0\<rparr>) = vertex ((h ! n)\<lparr>index := 0\<rparr>)"
    "parents ((h' ! n)\<lparr>index := 0\<rparr>) = parents ((h ! n)\<lparr>index := 0\<rparr>)"
    "children ((h' ! n)\<lparr>index := 0\<rparr>) = children ((h ! n)\<lparr>index := 0\<rparr>)"
    by (simp_all only: eq)
  then show "vertex (h' ! n) = vertex (h ! n)" and "parents (h' ! n) = parents (h ! n)"
    and "children (h' ! n) = children (h ! n)"
    by simp_all
qed

lemma erase_index_extends:
  assumes "erase_index h' = erase_index h"
  shows "heap_extends h h'"
proof -
  from assms have "length h' = length h"
    unfolding erase_index_def by (metis length_map)
  then show ?thesis
    unfolding heap_extends_def using erase_index_nth[OF assms] by simp
qed

lemma ranksToLevels_result:
  assumes "permuting sorter" and "ranksToLevels sorter ranks es = Inr res"
  obtains st1 where
    "handleEdges ranks es ([], fold addRankedVertex ranks emptyLevelState) = Inr (edgeToLevelNodes res, st1)"
    "erase_index (levelHeap res) = erase_index (heap st1)"
    "map mset (levels res) = map (\<lambda>r. mset (level_row st1 r))
        [minRank (fold addRankedVertex ranks emptyLevelState)..maxRank (fold addRankedVertex ranks emptyLevelState)]"
proof -
  let ?st0 = "fold addRankedVertex ranks emptyLevelState"
  from assms(2) obtain e2l st1 where he: "handleEdges ranks es ([], ?st0) = Inr (e2l, st1)"
    by (auto simp: ranksToLevels_def split: sum.splits)
  obtain l1 h1 where bl: "buildLevels (minRank st1) (maxRank st1) (rankToLevel st1) ([], heap st1) = (l1, h1)"
    by (metis prod.exhaust)
  obtain l2 h2 where cp: "crossingPasses sorter 0 (l1, h1) = (l2, h2)"
    by (metis prod.exhaust)
  from assms(2) he bl cp have res: "res = \<lparr>levels = l2, edgeToLevelNodes = e2l, levelHeap = h2\<rparr>"
    by (simp add: ranksToLevels_def makeLevels_def)
  have ext: "state_extends ?st0 st1"
    using handleEdges_spec[OF node_inv_fold[OF node_inv_empty] _ he]
    by (simp add: chains_ok_def)
  then have mm: "minRank st1 = minRank ?st0" "maxRank st1 = maxRank ?st0"
    by (simp_all add: state_extends_def)
  from buildLevels_spec[OF bl] have l1: "l1 = map (level_row st1) [minRank ?st0..maxRank ?st0]"
    and h1: "erase_index h1 = erase_index (heap st1)"
    by (simp_all add: mm level_row_def[abs_def])
  from crossingPasses_frame[OF assms(1), of 0 "(l1, h1)"] cp
  have "map mset l2 = map mset l1" "erase_index h2 = erase_index h1"
    by simp_all
  with l1 h1 have "erase_index (levelHeap res) = erase_index (heap st1)"
    and "map mset (levels res) = map (\<lambda>r. mset (level_row st1 r)) [minRank ?st0..maxRank ?st0]"
    by (simp_all add: res comp_def)
  with he res that show thesis by simp
qed

lemma map_of_ranks_bounds:
  assumes "map_of ranks v = Some r"
  shows "minRank (fold addRankedVertex ranks emptyLevelState) \<le> r"
    and "r \<le> maxRank (fold addRankedVertex ranks emptyLevelState)"
  using rank_bounds_fold(3,4)[OF map_of_SomeD[OF assms]] by simp_all

lemma ranksToLevels_edge_chain:
  assumes "permuting sorter" and "ranksToLevels sorter ranks es = Inr res" and "e \<in> set es"
  shows "\<exists>chain. map_of (edgeToLevelNodes res) e = Some chain
           \<and> edge_chain ranks (levelHeap res) (\<lambda>r. levels res ! rowIndex ranks r) e chain"
proof -
  let ?st0 = "fold addRankedVertex ranks emptyLevelState"
  from ranksToLevels_result[OF assms(1,2)] obtain st1 where
    he: "handleEdges ranks es ([], ?st0) = Inr (edgeToLevelNodes res, st1)"
    and hp: "erase_index (levelHeap res) = erase_index (heap st1)"
    and rows: "map mset (levels res) = map (\<lambda>r. mset (level_row st1 r)) [minRank ?st0..maxRank ?st0]"
    by blast
  from handleEdges_spec[OF node_inv_fold[OF node_inv_empty] _ he]
  have ok: "chains_ok ranks st1 (edgeToLevelNodes res)" and dom: "set es \<subseteq> dom (map_of (edgeToLevelNodes res))"
    by (simp_all add: chains_ok_def)
  from dom assms(3) obtain chain where chain: "map_of (edgeToLevelNodes res) e = Some chain"
    by blast
  with ok have ec: "edge_chain ranks (heap st1) (level_row st1) e chain"
    unfolding chains_ok_def by blast
  have row: "set (level_row st1 r) \<subseteq> set (levels res ! rowIndex ranks r)"
    if "minRank ?st0 \<le> r" "r \<le> maxRank ?st0" for r
  proof -
    let ?k = "nat (r - minRank ?st0)"
    have k: "?k < length [minRank ?st0..maxRank ?st0]" using that by simp
    have "map mset (levels res) ! ?k = map (\<lambda>r. mset (level_row st1 r)) [minRank ?st0..maxRank ?st0] ! ?k"
      by (simp only: rows)
    moreover have "length (levels res) = length [minRank ?st0..maxRank ?st0]"
      using rows by (metis length_map)
    ultimately have "mset (levels res ! ?k) = mset (level_row st1 ([minRank ?st0..maxRank ?st0] ! ?k))"
      using k by simp
    moreover have "[minRank ?st0..maxRank ?st0] ! ?k = r"
      using that by (simp add: nth_upto)
    ultimately have "mset (levels res ! ?k) = mset (level_row st1 r)" by simp
    then have "set (levels res ! ?k) = set (level_row st1 r)" by (rule mset_eq_setD)
    then show ?thesis by (simp add: rowIndex_def)
  qed
  have "edge_chain ranks (levelHeap res) (\<lambda>r. levels res ! rowIndex ranks r) e chain"
  proof (rule edge_chain_mono[OF ec erase_index_extends[OF hp]])
    fix r ru rv
    assume "map_of ranks (edge_from e) = Some ru" "map_of ranks (edge_to e) = Some rv"
      and r: "min ru rv < r" "r < max ru rv"
    from map_of_ranks_bounds[OF this(1)] map_of_ranks_bounds[OF this(2)] r
    have "minRank ?st0 \<le> r" "r \<le> maxRank ?st0" by linarith+
    then show "set (level_row st1 r) \<subseteq> set (levels res ! rowIndex ranks r)" by (rule row)
  qed
  with chain show ?thesis by blast
qed

lemma forward_chain_rev:
  assumes fc: "forward_chain h row v u rv ru (rev chain)"
  shows "length chain = nat (ru - rv + 1)"
    and "vertex (h ! hd chain) = Some u"
    and "vertex (h ! last chain) = Some v"
    and "\<And>i. 0 < i \<Longrightarrow> i + 1 < length chain \<Longrightarrow>
           vertex (h ! (chain ! i)) = None \<and> chain ! i \<in> set (row (ru - int i))"
    and "\<And>i. i + 1 < length chain \<Longrightarrow>
           chain ! i \<in> set (children (h ! (chain ! (i + 1)))) \<and>
           chain ! (i + 1) \<in> set (parents (h ! (chain ! i)))"
proof -
  from fc have le: "rv \<le> ru" and len: "length chain = nat (ru - rv + 1)"
    by (simp_all add: forward_chain_def)
  then have ne: "chain \<noteq> []" by auto
  show "length chain = nat (ru - rv + 1)" by (rule len)
  from fc ne show "vertex (h ! hd chain) = Some u" and "vertex (h ! last chain) = Some v"
    by (simp_all add: forward_chain_def hd_rev last_rev)
  {
    fix i assume i: "0 < i" "i + 1 < length chain"
    let ?j = "length chain - Suc i"
    have j: "0 < ?j" "?j + 1 < length (rev chain)" using i by simp_all
    have nth: "rev chain ! ?j = chain ! i" using i by (simp add: rev_nth)
    from fc j have "vertex (h ! (rev chain ! ?j)) = None" "rev chain ! ?j \<in> set (row (rv + int ?j))"
      unfolding forward_chain_def by blast+
    moreover have "rv + int ?j = ru - int i" using i len le by simp
    ultimately show "vertex (h ! (chain ! i)) = None \<and> chain ! i \<in> set (row (ru - int i))"
      using nth by simp
  }
  {
    fix i assume i: "i + 1 < length chain"
    let ?j = "length chain - Suc (Suc i)"
    have j: "?j + 1 < length (rev chain)" using i by simp
    have nth: "rev chain ! ?j = chain ! (i + 1)" "rev chain ! (?j + 1) = chain ! i"
      using i by (simp_all add: rev_nth Suc_diff_Suc)
    from fc j have "rev chain ! (?j + 1) \<in> set (children (h ! (rev chain ! ?j)))"
      "rev chain ! ?j \<in> set (parents (h ! (rev chain ! (?j + 1))))"
      unfolding forward_chain_def by blast+
    then show "chain ! i \<in> set (children (h ! (chain ! (i + 1)))) \<and>
           chain ! (i + 1) \<in> set (parents (h ! (chain ! i)))"
      unfolding nth by simp
  }
qed

text \<open>
  C1. When level construction succeeds, the chain recorded for an edge whose source has
  rank at most the rank of its target has \<open>rank(to) - rank(from) + 1\<close> nodes. Its first
  node is the real node of the source, its last node the real node of the target; every node
  in between is virtual and lies in the row of its rank, one for each rank strictly between
  the two; each node of the chain has the next one among its children and is among the
  parents of the next one. The chain of a self-loop is the single node of its vertex.
\<close>

theorem forward_edge_chain:
  assumes "permuting sorter" and "ranksToLevels sorter ranks es = Inr res" and "e \<in> set es"
    and "map_of ranks (edge_from e) = Some ru" and "map_of ranks (edge_to e) = Some rv"
    and "ru \<le> rv"
  shows "\<exists>chain. map_of (edgeToLevelNodes res) e = Some chain
     \<and> length chain = nat (rv - ru + 1)
     \<and> vertex (levelHeap res ! hd chain) = Some (edge_from e)
     \<and> vertex (levelHeap res ! last chain) = Some (edge_to e)
     \<and> (\<forall>i. 0 < i \<and> i + 1 < length chain \<longrightarrow>
           vertex (levelHeap res ! (chain ! i)) = None
           \<and> chain ! i \<in> set (levels res ! rowIndex ranks (ru + int i)))
     \<and> (\<forall>i. i + 1 < length chain \<longrightarrow>
           chain ! (i + 1) \<in> set (children (levelHeap res ! (chain ! i)))
           \<and> chain ! i \<in> set (parents (levelHeap res ! (chain ! (i + 1)))))
     \<and> (edge_from e = edge_to e \<longrightarrow> chain = [hd chain])"
proof -
  from ranksToLevels_edge_chain[OF assms(1,2,3)] obtain chain where
    chain: "map_of (edgeToLevelNodes res) e = Some chain"
    and ec: "edge_chain ranks (levelHeap res) (\<lambda>r. levels res ! rowIndex ranks r) e chain"
    by blast
  from ec assms(4,5,6)
  have fc: "forward_chain (levelHeap res) (\<lambda>r. levels res ! rowIndex ranks r) (edge_from e) (edge_to e) ru rv chain"
    unfolding edge_chain_def by simp
  have self: "chain = [hd chain]" if "edge_from e = edge_to e"
  proof -
    from that assms(4,5) have "ru = rv" by simp
    with fc have "length chain = 1" by (simp add: forward_chain_def)
    then show ?thesis by (cases chain) simp_all
  qed
  from fc chain self show ?thesis
    unfolding forward_chain_def by blast
qed

text \<open>
  C5. For an edge whose source has a larger rank than its target, \<open>handleEdge\<close> returns
  the chain of the reversed edge, reversed. When level construction succeeds, the recorded
  chain starts at the real node of the source and ends at the real node of the target; the
  nodes in between are virtual and lie in the rows strictly between the two ranks, in
  decreasing order of rank; the parent and child links run from the target to the source.
\<close>

theorem back_edge_chain:
  assumes "permuting sorter" and "ranksToLevels sorter ranks es = Inr res" and "e \<in> set es"
    and "map_of ranks (edge_from e) = Some ru" and "map_of ranks (edge_to e) = Some rv"
    and "rv < ru"
  shows "handleEdge ranks (edge_from e) (edge_to e) st =
           (case handleEdge ranks (edge_to e) (edge_from e) st of
              Inl err \<Rightarrow> Inl err
            | Inr (nodes, st') \<Rightarrow> Inr (rev nodes, st'))
     \<and> (\<exists>chain. map_of (edgeToLevelNodes res) e = Some chain
     \<and> length chain = nat (ru - rv + 1)
     \<and> vertex (levelHeap res ! hd chain) = Some (edge_from e)
     \<and> vertex (levelHeap res ! last chain) = Some (edge_to e)
     \<and> (\<forall>i. 0 < i \<and> i + 1 < length chain \<longrightarrow>
           vertex (levelHeap res ! (chain ! i)) = None
           \<and> chain ! i \<in> set (levels res ! rowIndex ranks (ru - int i)))
     \<and> (\<forall>i. i + 1 < length chain \<longrightarrow>
           chain ! i \<in> set (children (levelHeap res ! (chain ! (i + 1))))
           \<and> chain ! (i + 1) \<in> set (parents (levelHeap res ! (chain ! i)))))"
proof -
  from ranksToLevels_edge_chain[OF assms(1,2,3)] obtain chain where
    chain: "map_of (edgeToLevelNodes res) e = Some chain"
    and ec: "edge_chain ranks (levelHeap res) (\<lambda>r. levels res ! rowIndex ranks r) e chain"
    by blast
  from ec assms(4,5,6)
  have fc: "forward_chain (levelHeap res) (\<lambda>r. levels res ! rowIndex ranks r) (edge_to e) (edge_from e) rv ru (rev chain)"
    unfolding edge_chain_def by simp
  note rv = forward_chain_rev[OF fc]
  have "length chain = nat (ru - rv + 1)
     \<and> vertex (levelHeap res ! hd chain) = Some (edge_from e)
     \<and> vertex (levelHeap res ! last chain) = Some (edge_to e)
     \<and> (\<forall>i. 0 < i \<and> i + 1 < length chain \<longrightarrow>
           vertex (levelHeap res ! (chain ! i)) = None
           \<and> chain ! i \<in> set (levels res ! rowIndex ranks (ru - int i)))
     \<and> (\<forall>i. i + 1 < length chain \<longrightarrow>
           chain ! i \<in> set (children (levelHeap res ! (chain ! (i + 1))))
           \<and> chain ! (i + 1) \<in> set (parents (levelHeap res ! (chain ! i))))"
    using rv(1,2,3) rv(4) rv(5) by blast
  with chain handleEdge_back[OF assms(4,5,6), of st] show ?thesis by blast
qed

section \<open>The chains of two small inputs\<close>

lemma chainResult_value: "ranksToLevels sortBy chainRanks chainEdges = Inr chainResult"
  by code_simp

lemma backResult_value: "ranksToLevels sortBy backRanks backEdges = Inr backResult"
  by code_simp

theorem forward_edge_chain_witness:
  "permuting (sortBy :: (ref \<Rightarrow> rat option) \<Rightarrow> ref list \<Rightarrow> ref list)
   \<and> ranksToLevels sortBy chainRanks chainEdges = Inr chainResult
   \<and> \<lparr>ident = 2, edge_from = 0, edge_to = 2\<rparr> \<in> set chainEdges
   \<and> map_of chainRanks 0 = Some 0 \<and> map_of chainRanks 2 = Some 2 \<and> (0::int) \<le> 2
   \<and> (\<exists>chain. map_of (edgeToLevelNodes chainResult) \<lparr>ident = 2, edge_from = 0, edge_to = 2\<rparr> = Some chain
         \<and> length chain = 3
         \<and> vertex (levelHeap chainResult ! hd chain) = Some 0
         \<and> vertex (levelHeap chainResult ! last chain) = Some 2)"
proof -
  let ?e = "\<lparr>ident = 2, edge_from = 0::nat, edge_to = 2\<rparr>"
  have h1: "?e \<in> set chainEdges" by (simp add: chainEdges_def)
  have h2: "map_of chainRanks (edge_from ?e) = Some 0" by (simp add: chainRanks_def)
  have h3: "map_of chainRanks (edge_to ?e) = Some 2" by (simp add: chainRanks_def)
  have h4: "(0::int) \<le> 2" by simp
  from forward_edge_chain[OF permuting_sortBy chainResult_value h1 h2 h3 h4]
  obtain chain where "map_of (edgeToLevelNodes chainResult) ?e = Some chain"
    "length chain = nat (2 - 0 + 1)"
    "vertex (levelHeap chainResult ! hd chain) = Some (edge_from ?e)"
    "vertex (levelHeap chainResult ! last chain) = Some (edge_to ?e)"
    by blast
  then have "\<exists>chain. map_of (edgeToLevelNodes chainResult) ?e = Some chain
         \<and> length chain = 3
         \<and> vertex (levelHeap chainResult ! hd chain) = Some 0
         \<and> vertex (levelHeap chainResult ! last chain) = Some 2"
    by (intro exI[of _ chain]) simp
  with permuting_sortBy chainResult_value h1 h2 h3 h4 show ?thesis by simp
qed

theorem back_edge_chain_witness:
  "permuting (sortBy :: (ref \<Rightarrow> rat option) \<Rightarrow> ref list \<Rightarrow> ref list)
   \<and> ranksToLevels sortBy backRanks backEdges = Inr backResult
   \<and> \<lparr>ident = 0, edge_from = 0, edge_to = 1\<rparr> \<in> set backEdges
   \<and> map_of backRanks 0 = Some 2 \<and> map_of backRanks 1 = Some 0 \<and> (0::int) < 2
   \<and> (\<exists>chain. map_of (edgeToLevelNodes backResult) \<lparr>ident = 0, edge_from = 0, edge_to = 1\<rparr> = Some chain
         \<and> length chain = 3
         \<and> vertex (levelHeap backResult ! hd chain) = Some 0
         \<and> vertex (levelHeap backResult ! last chain) = Some 1)"
proof -
  let ?e = "\<lparr>ident = 0, edge_from = 0::nat, edge_to = 1\<rparr>"
  have h1: "?e \<in> set backEdges" by (simp add: backEdges_def)
  have h2: "map_of backRanks (edge_from ?e) = Some 2" by (simp add: backRanks_def)
  have h3: "map_of backRanks (edge_to ?e) = Some 0" by (simp add: backRanks_def)
  have h4: "(0::int) < 2" by simp
  from back_edge_chain[OF permuting_sortBy backResult_value h1 h2 h3 h4, of emptyLevelState]
  obtain chain where "map_of (edgeToLevelNodes backResult) ?e = Some chain"
    "length chain = nat (2 - 0 + 1)"
    "vertex (levelHeap backResult ! hd chain) = Some (edge_from ?e)"
    "vertex (levelHeap backResult ! last chain) = Some (edge_to ?e)"
    by blast
  then have "\<exists>chain. map_of (edgeToLevelNodes backResult) ?e = Some chain
         \<and> length chain = 3
         \<and> vertex (levelHeap backResult ! hd chain) = Some 0
         \<and> vertex (levelHeap backResult ! last chain) = Some 1"
    by (intro exI[of _ chain]) simp
  with permuting_sortBy backResult_value h1 h2 h3 h4 show ?thesis by simp
qed

theorem crossing_passes_keep_rows_witness:
  "permuting (sortBy :: (ref \<Rightarrow> rat option) \<Rightarrow> ref list \<Rightarrow> ref list)
   \<and> map mset (fst (crossingPasses sortBy 0 ([[0], [1, 3], [2]], levelHeap chainResult))) = [{#0#}, {#1, 3#}, {#2#}]
   \<and> erase_index (snd (crossingPasses sortBy 0 ([[0], [1, 3], [2]], levelHeap chainResult)))
       = erase_index (levelHeap chainResult)"
proof -
  have "map mset [[0], [1, 3], [2::nat]] = [{#0#}, {#1, 3#}, {#2#}]" by simp
  with crossing_passes_keep_rows[OF permuting_sortBy, of "[[0], [1, 3], [2]]" "levelHeap chainResult"]
    permuting_sortBy
  show ?thesis by (simp only:)
qed

section \<open>Centring of the rows\<close>















section \<open>The first anchor of an edge path\<close>

text \<open>
  C9. On the graph with the cycle \<open>0 \<rightarrow> 1\<close>, \<open>1 \<rightarrow> 0\<close> the pipeline succeeds. The chain
  of the edge \<open>0 \<rightarrow> 1\<close> is the node \<open>1\<close> (vertex \<open>0\<close>, in the lower row, rectangle from
  \<open>y = 70\<close> to \<open>y = 95\<close>) followed by the node \<open>0\<close> (vertex \<open>1\<close>, in the upper row). The
  path of this edge moves to \<open>y = 95\<close>, the bottom edge of the rectangle of its first node,
  although the next node of the chain lies above it; the curve then ends at \<open>y = 25\<close>, the
  bottom edge of the upper rectangle, the face that is nearer.
\<close>

theorem edge_path_upward_starts_at_bottom:
  "layoutGraph sortBy cycleGraph = Inr cycleLayout
   \<and> map_of (edgeToLevelNodes (layoutLevels cycleLayout)) \<lparr>ident = 0, edge_from = 0, edge_to = 1\<rparr> = Some [1, 0]
   \<and> map_of (nodePositions cycleLayout) 1 = Some (Rect (Vec2 0 70) (Vec2 115 25))
   \<and> map_of (nodePositions cycleLayout) 0 = Some (Rect (Vec2 0 0) (Vec2 115 25))
   \<and> map_of (edgePaths cycleLayout) \<lparr>ident = 0, edge_from = 0, edge_to = 1\<rparr>
       = Some [MoveTo (115 / 2) 95, SmoothTo (115 / 2) (95 / 2) (115 / 2) 25]"
  by code_simp

section \<open>Termination of the pipeline\<close>

text \<open>
  Every recursive function above was accepted with a termination proof. The lemmas below
  state what those proofs establish, that every argument lies in the domain of the
  recursion, together with the reasons the traversal and the edge handler stop.
\<close>

lemma getRank_total: "All (getRank_getRank_loop_dom :: ('v graph \<times> 'v \<times> 'v rank_state) + ('v graph \<times> 'v edge list \<times> int \<times> 'v rank_state) \<Rightarrow> bool)"
proof (relation "measures [rank_measure1, rank_measure2]", goal_cases)
  case 1
  show ?case by simp
next
  case (2 g v visited ranks)
  have "sources g \<union> edge_from ` set (getEdgesEntering g v) = sources g"
    using getEdgesEntering_sources[of _ g v] by auto
  moreover have "card (sources g - insert v visited) < card (insert v (sources g) - visited)"
    using 2 by (intro psubset_card_mono) (auto simp: finite_sources)
  ultimately show ?case
    by (simp add: rank_measure1_def)
next
  case (3 g enteringEdge rest maxParentRank st)
  have "card (insert (edge_from enteringEdge) (sources g) - fst st)
      \<le> card ((sources g \<union> edge_from ` set (enteringEdge # rest)) - fst st)"
    by (intro card_mono) (auto simp: finite_sources)
  then show ?case
    by (auto simp: rank_measure1_def rank_measure2_def)
next
  case (4 g enteringEdge rest maxParentRank st r st')
  then have "fst st \<subseteq> fst st'"
    using getRank_visited_mono_p(1)[of g "edge_from enteringEdge" st] by (metis snd_conv)
  then have "card ((sources g \<union> edge_from ` set rest) - fst st')
      \<le> card ((sources g \<union> edge_from ` set (enteringEdge # rest)) - fst st)"
    by (intro card_mono) (auto simp: finite_sources)
  then show ?case
    by (auto simp: rank_measure1_def rank_measure2_def)
qed

lemma insertVirtual_total: "All (insertVirtual_dom :: int \<times> int \<times> ref \<times> ref list \<times> 'v levelState \<Rightarrow> bool)"
  by (relation "measure (\<lambda>(rank, toRank, parent, nodes, st). nat (toRank - rank))") auto

lemma handleEdge_total: "All (handleEdge_dom :: ('v \<times> int) list \<times> 'v \<times> 'v \<times> 'v levelState \<Rightarrow> bool)"
  by (relation "measure (\<lambda>(ranks, from, to, st). if backEdge ranks from to then 1 else 0)")
     (auto simp: backEdge_def)

lemma reindexLevel_from_total: "All (reindexLevel_from_dom :: nat \<times> ref list \<times> 'v levelNode list \<Rightarrow> bool)"
  by (relation "measure (\<lambda>(i, level, h). length level - i)") auto

lemma buildLevels_total: "All (buildLevels_dom :: int \<times> int \<times> (int \<times> ref list) list \<times> ref list list \<times> 'v levelNode list \<Rightarrow> bool)"
  by (relation "measure (\<lambda>(rank, maxR, r2l, acc). nat (maxR + 1 - rank))") auto

lemma sweepDown_total: "All (sweepDown_dom :: ((ref \<Rightarrow> rat option) \<Rightarrow> ref list \<Rightarrow> ref list) \<times> nat \<times> ref list list \<times> 'v levelNode list \<Rightarrow> bool)"
  by (relation "measure (\<lambda>(sorter, i, acc). length (fst acc) - i)") (auto simp: sortLevel_def Let_def)

lemma crossingPasses_total: "All (crossingPasses_dom :: ((ref \<Rightarrow> rat option) \<Rightarrow> ref list \<Rightarrow> ref list) \<times> nat \<times> ref list list \<times> 'v levelNode list \<Rightarrow> bool)"
  by (relation "measure (\<lambda>(sorter, pass, acc). 4 - pass)") auto

lemma getRank_visited_mono: "fst st \<subseteq> fst (snd (getRank g v st))"
  using getRank_visited_mono_p(1)[of g v st] getRank_total by blast

lemma getRank_loop_visited_mono: "fst st \<subseteq> fst (snd (getRank_loop g es m st))"
  using getRank_visited_mono_p(2)[of g es m st] getRank_total by blast

lemma getRank_marks: "v \<in> fst (snd (getRank g v st))"
proof -
  obtain visited ranks where st: "st = (visited, ranks)" by (cases st)
  show ?thesis
  proof (cases "v \<in> visited")
    case True
    then show ?thesis unfolding st by (simp split: option.splits)
  next
    case False
    have "v \<in> fst (snd (getRank_loop g (getEdgesEntering g v) (- 1) (insert v visited, ranks)))"
      using getRank_loop_visited_mono[of "(insert v visited, ranks)" g "getEdgesEntering g v" "- 1"]
      by auto
    with False show ?thesis
      unfolding st by (auto simp: Let_def split: prod.splits)
  qed
qed

lemma getRank_visited_noop:
  "v \<in> fst st \<Longrightarrow> getRank g v st = ((case map_of (snd st) v of Some r \<Rightarrow> r | None \<Rightarrow> - 1), st)"
  by (cases st) (simp split: option.splits)

lemma backEdge_asym: "backEdge ranks from to \<Longrightarrow> \<not> backEdge ranks to from"
  by (auto simp: backEdge_def split: option.splits)

lemma backEdge_handleEdge:
  assumes "backEdge ranks from to"
  shows "handleEdge ranks from to st =
           (case handleEdge ranks to from st of
              Inl err \<Rightarrow> Inl err
            | Inr (nodes, st') \<Rightarrow> Inr (rev nodes, st'))"
proof -
  from assms obtain fr tr where "map_of ranks from = Some fr" "map_of ranks to = Some tr" "tr < fr"
    by (auto simp: backEdge_def split: option.splits)
  then show ?thesis by (rule handleEdge_back)
qed

lemma handleEdge_error: "handleEdge ranks a b st = Inl err \<Longrightarrow> levelError err"
proof (induction ranks a b st rule: handleEdge.induct)
  case (1 ranks a b st)
  show ?case
  proof (cases "backEdge ranks a b")
    case True
    then have "a \<noteq> b" by (simp add: backEdge_def)
    from True obtain fr tr where r: "map_of ranks a = Some fr" "map_of ranks b = Some tr" "tr < fr"
      by (auto simp: backEdge_def split: option.splits)
    from backEdge_handleEdge[OF True, of st] "1.prems"
    have "handleEdge ranks b a st = Inl err"
      by (auto split: sum.splits)
    with "1.IH"[OF \<open>a \<noteq> b\<close> r(1) r(2)] r(3) show ?thesis by simp
  next
    case False
    with "1.prems" show ?thesis
      by (subst (asm) handleEdge.simps)
         (auto simp: levelError_def backEdge_def split: if_splits option.splits prod.splits)
  qed
qed

lemma handleEdges_error: "handleEdges ranks es acc = Inl err \<Longrightarrow> levelError err"
proof (induction es arbitrary: acc)
  case Nil
  then show ?case by (cases acc) simp
next
  case (Cons e es)
  obtain m st where acc: "acc = (m, st)" by (cases acc)
  show ?case
  proof (cases "handleEdge ranks (edge_from e) (edge_to e) st")
    case (Inl err')
    with Cons.prems have "err' = err" unfolding acc by simp
    with Inl show ?thesis by (auto dest: handleEdge_error)
  next
    case (Inr res)
    with Cons.prems have "handleEdges ranks es (recordChain e res m) = Inl err"
      unfolding acc by simp
    then show ?thesis by (rule Cons.IH)
  qed
qed

lemma ranksToLevels_error: "ranksToLevels sorter ranks es = Inl err \<Longrightarrow> levelError err"
  by (auto simp: ranksToLevels_def split: sum.splits dest: handleEdges_error)

lemma pathSegments_error: "pathSegments positions from nodeList = Inl err \<Longrightarrow> pathError err"
  by (induction nodeList arbitrary: "from")
     (auto simp: pathError_def Let_def split: option.splits sum.splits)

lemma edgePath_error: "edgePath positions nodeList = Inl err \<Longrightarrow> pathError err"
  by (auto simp: edgePath_def Let_def pathError_def split: list.splits option.splits sum.splits
           dest: pathSegments_error)

lemma makeEdgePaths_loop_error: "makeEdgePaths_loop positions e2l acc = Inl err \<Longrightarrow> pathError err"
  by (induction positions e2l acc rule: makeEdgePaths_loop.induct)
     (auto split: sum.splits dest: edgePath_error)

lemma makeEdgePaths_error: "makeEdgePaths e2l positions = Inl err \<Longrightarrow> pathError err"
  by (auto simp: makeEdgePaths_def dest: makeEdgePaths_loop_error)

lemma layoutGraph_cases:
  "(\<exists>lay. layoutGraph sorter g = Inr lay)
   \<or> (\<exists>err. layoutGraph sorter g = Inl err \<and> ranksToLevels sorter (rankVertices g) (getEdges g) = Inl err)
   \<or> (\<exists>err res. layoutGraph sorter g = Inl err
         \<and> ranksToLevels sorter (rankVertices g) (getEdges g) = Inr res
         \<and> makeEdgePaths (edgeToLevelNodes res) (positionNodes (levelHeap res) (levels res)) = Inl err)"
  by (auto simp: layoutGraph_def Let_def split: sum.splits)

text \<open>
  C10. For every graph value, which is finite and may have cycles, self-loops and parallel
  edges, the pipeline terminates. Every argument lies in the domain of each recursive
  function: of \<open>getRank\<close> and its loop over the entering edges, of \<open>handleEdge\<close> and
  its loop \<open>insertVirtual\<close>, and of the loops \<open>reindexLevel_from\<close>, \<open>buildLevels\<close>,
  \<open>sweepDown\<close> and \<open>crossingPasses\<close>; the remaining loops are structural recursions
  over a list or a counter. The ranking stops because of the visited set: a visited vertex
  is answered without expanding its predecessors and without changing the state, the visited
  set only grows, and a vertex is visited once its rank was asked for. The recursion of
  \<open>handleEdge\<close> on a back edge has depth one: it swaps the endpoints, and the swapped
  edge is not a back edge. Each stage returns its output or one of its errors: building the
  levels fails only with one of the four errors of \<open>handleEdge\<close>, routing the edges only
  for a missing position, and the pipeline returns a layout or the error of one of these two
  stages.
\<close>

theorem pipeline_terminates:
  fixes g :: "'v graph" and st :: "'v rank_state" and ls :: "'v levelState" and h :: "'v levelNode list"
  shows
    "getRank_getRank_loop_dom (Inl (g, v, st))
     \<and> getRank_getRank_loop_dom (Inr (g, es, m, st))
     \<and> (v \<in> fst st \<longrightarrow> getRank g v st = ((case map_of (snd st) v of Some r \<Rightarrow> r | None \<Rightarrow> - 1), st))
     \<and> fst st \<subseteq> fst (snd (getRank g v st))
     \<and> v \<in> fst (snd (getRank g v st))
     \<and> handleEdge_dom (ranks, a, b, ls)
     \<and> (backEdge ranks a b \<longrightarrow>
          \<not> backEdge ranks b a
          \<and> handleEdge ranks a b ls =
              (case handleEdge ranks b a ls of
                 Inl err \<Rightarrow> Inl err
               | Inr (nodes, st') \<Rightarrow> Inr (rev nodes, st')))
     \<and> insertVirtual_dom (rank, toRank, parent, chain, ls)
     \<and> reindexLevel_from_dom (i, level, h)
     \<and> buildLevels_dom (rank, maxR, r2l, (lvls, h))
     \<and> sweepDown_dom (sorter, i, (lvls, h))
     \<and> crossingPasses_dom (sorter, pass, (lvls, h))
     \<and> (ranksToLevels sorter rankList edgeList = Inl err1 \<longrightarrow> levelError err1)
     \<and> (makeEdgePaths e2l positions = Inl err2 \<longrightarrow> pathError err2)
     \<and> ((\<exists>lay. layoutGraph sorter g = Inr lay)
        \<or> (\<exists>err. layoutGraph sorter g = Inl err
              \<and> ranksToLevels sorter (rankVertices g) (getEdges g) = Inl err)
        \<or> (\<exists>err res. layoutGraph sorter g = Inl err
              \<and> ranksToLevels sorter (rankVertices g) (getEdges g) = Inr res
              \<and> makeEdgePaths (edgeToLevelNodes res) (positionNodes (levelHeap res) (levels res)) = Inl err))"
proof (intro conjI impI)
  show "getRank_getRank_loop_dom (Inl (g, v, st))" using getRank_total by blast
  show "getRank_getRank_loop_dom (Inr (g, es, m, st))" using getRank_total by blast
  show "getRank g v st = ((case map_of (snd st) v of Some r \<Rightarrow> r | None \<Rightarrow> - 1), st)" if "v \<in> fst st"
    using that by (rule getRank_visited_noop)
  show "fst st \<subseteq> fst (snd (getRank g v st))" by (rule getRank_visited_mono)
  show "v \<in> fst (snd (getRank g v st))" by (rule getRank_marks)
  show "handleEdge_dom (ranks, a, b, ls)" using handleEdge_total by blast
  show "\<not> backEdge ranks b a" if "backEdge ranks a b"
    using that by (rule backEdge_asym)
  show "handleEdge ranks a b ls =
          (case handleEdge ranks b a ls of
             Inl err \<Rightarrow> Inl err
           | Inr (nodes, st') \<Rightarrow> Inr (rev nodes, st'))" if "backEdge ranks a b"
    using that by (rule backEdge_handleEdge)
  show "insertVirtual_dom (rank, toRank, parent, chain, ls)" using insertVirtual_total by blast
  show "reindexLevel_from_dom (i, level, h)" using reindexLevel_from_total by blast
  show "buildLevels_dom (rank, maxR, r2l, (lvls, h))" using buildLevels_total by blast
  show "sweepDown_dom (sorter, i, (lvls, h))" using sweepDown_total by blast
  show "crossingPasses_dom (sorter, pass, (lvls, h))" using crossingPasses_total by blast
  show "levelError err1" if "ranksToLevels sorter rankList edgeList = Inl err1"
    using that by (rule ranksToLevels_error)
  show "pathError err2" if "makeEdgePaths e2l positions = Inl err2"
    using that by (rule makeEdgePaths_error)
  show "(\<exists>lay. layoutGraph sorter g = Inr lay)
        \<or> (\<exists>err. layoutGraph sorter g = Inl err
              \<and> ranksToLevels sorter (rankVertices g) (getEdges g) = Inl err)
        \<or> (\<exists>err res. layoutGraph sorter g = Inl err
              \<and> ranksToLevels sorter (rankVertices g) (getEdges g) = Inr res
              \<and> makeEdgePaths (edgeToLevelNodes res) (positionNodes (levelHeap res) (levels res)) = Inl err)"
    by (rule layoutGraph_cases)
qed

theorem pipeline_terminates_witness:
  "getRank_getRank_loop_dom (Inl (loopyGraph, 0, ({0}, [(0, 5)])))
   \<and> 0 \<in> fst ({0 :: nat}, [(0 :: nat, 5 :: int)])
   \<and> getRank loopyGraph 0 ({0}, [(0, 5)]) = (5, ({0}, [(0, 5)]))
   \<and> backEdge backRanks 0 1
   \<and> \<not> backEdge backRanks 1 0
   \<and> handleEdge backRanks 0 1 (fold addRankedVertex backRanks emptyLevelState) =
       (case handleEdge backRanks 1 0 (fold addRankedVertex backRanks emptyLevelState) of
          Inl err \<Rightarrow> Inl err
        | Inr (nodes, st') \<Rightarrow> Inr (rev nodes, st'))
   \<and> ranksToLevels sortBy [(0 :: nat, 0), (1, 0)]
        [\<lparr>ident = 0, edge_from = 2, edge_to = 0\<rparr>, \<lparr>ident = 1, edge_from = 0, edge_to = 1\<rparr>] = Inl VertexWithNoRank
   \<and> levelError (VertexWithNoRank :: nat error)
   \<and> makeEdgePaths [(\<lparr>ident = 0, edge_from = 0 :: nat, edge_to = 1\<rparr>, [0, 1])] [(0, Rect (Vec2 0 0) (Vec2 115 25))]
        = Inl (MissingPosition (Some 1))
   \<and> pathError (MissingPosition (Some 1) :: nat error)
   \<and> rankVertices loopyGraph = [(1, 0), (0, 1), (2, 1)]
   \<and> (case layoutGraph sortBy loopyGraph of Inl err \<Rightarrow> False | Inr lay \<Rightarrow> levels (layoutLevels lay) = [[0], [1, 2]])"
proof -
  have h1: "0 \<in> fst ({0 :: nat}, [(0 :: nat, 5 :: int)])" by simp
  have h2: "backEdge backRanks 0 1" by code_simp
  have h3: "ranksToLevels sortBy [(0 :: nat, 0), (1, 0)]
        [\<lparr>ident = 0, edge_from = 2, edge_to = 0\<rparr>, \<lparr>ident = 1, edge_from = 0, edge_to = 1\<rparr>] = Inl VertexWithNoRank"
    by code_simp
  have h4: "makeEdgePaths [(\<lparr>ident = 0, edge_from = 0 :: nat, edge_to = 1\<rparr>, [0, 1])] [(0, Rect (Vec2 0 0) (Vec2 115 25))]
        = Inl (MissingPosition (Some 1))"
    by code_simp
  have h5: "rankVertices loopyGraph = [(1, 0), (0, 1), (2, 1)]" by code_simp
  have h6: "(case layoutGraph sortBy loopyGraph of Inl err \<Rightarrow> False | Inr lay \<Rightarrow> levels (layoutLevels lay) = [[0], [1, 2]])"
    by code_simp
  note t = pipeline_terminates[where g = loopyGraph and v = 0 and st = "({0}, [(0, 5)])"
      and ranks = backRanks and a = 0 and b = 1 and ls = "fold addRankedVertex backRanks emptyLevelState"
      and sorter = sortBy and rankList = "[(0, 0), (1, 0)]" and ?edgeList = "[\<lparr>ident = 0, edge_from = 2, edge_to = 0\<rparr>, \<lparr>ident = 1, edge_from = 0, edge_to = 1\<rparr>]"
      and ?err1.0 = VertexWithNoRank
      and e2l = "[(\<lparr>ident = 0, edge_from = 0 :: nat, edge_to = 1\<rparr>, [0, 1])]"
      and positions = "[(0, Rect (Vec2 0 0) (Vec2 115 25))]"
      and ?err2.0 = "MissingPosition (Some 1)"]
  have c1: "getRank_getRank_loop_dom (Inl (loopyGraph, 0, ({0}, [(0, 5)])))"
    using t by (rule conjunct1)
  have "getRank loopyGraph 0 ({0}, [(0, 5)])
      = ((case map_of (snd ({0 :: nat}, [(0 :: nat, 5 :: int)])) 0 of Some r \<Rightarrow> r | None \<Rightarrow> - 1), ({0}, [(0, 5)]))"
    using t h1 by blast
  then have c3: "getRank loopyGraph 0 ({0}, [(0, 5)]) = (5, ({0}, [(0, 5)]))"
    by simp
  have c5: "\<not> backEdge backRanks 1 0"
    using t h2 by blast
  have c6: "handleEdge backRanks 0 1 (fold addRankedVertex backRanks emptyLevelState) =
       (case handleEdge backRanks 1 0 (fold addRankedVertex backRanks emptyLevelState) of
          Inl err \<Rightarrow> Inl err
        | Inr (nodes, st') \<Rightarrow> Inr (rev nodes, st'))"
    using t h2 by blast
  have c8: "levelError (VertexWithNoRank :: nat error)"
    using t h3 by blast
  have c10: "pathError (MissingPosition (Some 1) :: nat error)"
    using t h4 by blast
  from c1 h1 c3 h2 c5 c6 h3 c8 h4 c10 h5 h6 show ?thesis
    by (intro conjI)
qed

end
